theory Spec2Isabelle
  imports Main "HOL-Library.Word" "HOL-Library.Char_ord" "HOL-Library.List_Lexorder"
begin

section \<open>Dynamic values\<close>

text \<open>
  A Go value of type \<^verbatim>\<open>interface{}\<close>, as far as \<^verbatim>\<open>node.go\<close> tells kinds apart.
  Machine integers are words; a \<^verbatim>\<open>float32\<close>/\<^verbatim>\<open>float64\<close> is carried as its IEEE bit
  pattern (the code stores floats and hands them back, its only computation on them is
  text rendering). \<open>VSlice\<close> is a slice of any element type. \<open>VMap\<close> is a
  \<^verbatim>\<open>map[string]interface{}\<close>: the list gives the entries in the order they were
  inserted (for a decoded document: the written order); a Go map has no duplicate keys
  (\<open>wf_value\<close>) and its iteration order is random, so the code can only use the key set and
  lookups. \<open>VOther ty txt\<close> is a value of any other type (a user type, whatever its
  name), with the name of its type and its \<^verbatim>\<open>%v\<close> rendering.
\<close>

datatype gvalue =
    VNil
  | VString string
  | VBool bool
  | VInt "64 word"
  | VInt8 "8 word"
  | VInt16 "16 word"
  | VInt32 "32 word"
  | VInt64 "64 word"
  | VUint "64 word"
  | VUint8 "8 word"
  | VUint16 "16 word"
  | VUint32 "32 word"
  | VUint64 "64 word"
  | VFloat32 "32 word"
  | VFloat64 "64 word"
  | VSlice "gvalue list"
  | VMap "(string \<times> gvalue) list"
  | VOther string string

text \<open>\<^verbatim>\<open>v[key]\<close>: the zero value \<^verbatim>\<open>nil\<close> for a missing key.\<close>

definition map_index :: "(string \<times> gvalue) list \<Rightarrow> string \<Rightarrow> gvalue" where
  "map_index m key = (case map_of m key of None \<Rightarrow> VNil | Some v \<Rightarrow> v)"

text \<open>\<^verbatim>\<open>obj[key] = v\<close>: replaces the entry of an existing key, adds one otherwise.\<close>

fun map_assign :: "(string \<times> gvalue) list \<Rightarrow> string \<Rightarrow> gvalue \<Rightarrow> (string \<times> gvalue) list" where
  "map_assign [] key v = [(key, v)]"
| "map_assign ((k, w) # m) key v = (if k = key then (k, v) # m else (k, w) # map_assign m key v)"

text \<open>The invariant of the Go types: no map has two entries for one key.\<close>

fun wf_value :: "gvalue \<Rightarrow> bool" where
  "wf_value (VSlice xs) = list_all wf_value xs"
| "wf_value (VMap m) = (distinct (map fst m) \<and> list_all (\<lambda>p. wf_value (snd p)) m)"
| "wf_value _ = True"

text \<open>
  What \<^verbatim>\<open>json.Unmarshal\<close> into an \<^verbatim>\<open>interface{}\<close> produces: \<^verbatim>\<open>nil\<close>, \<^verbatim>\<open>bool\<close>,
  \<^verbatim>\<open>float64\<close>, \<^verbatim>\<open>string\<close>, \<^verbatim>\<open>[]interface{}\<close> and \<^verbatim>\<open>map[string]interface{}\<close>.
\<close>

fun json_decoded :: "gvalue \<Rightarrow> bool" where
  "json_decoded VNil = True"
| "json_decoded (VBool b) = True"
| "json_decoded (VFloat64 f) = True"
| "json_decoded (VString s) = True"
| "json_decoded (VSlice xs) = list_all json_decoded xs"
| "json_decoded (VMap m) = (distinct (map fst m) \<and> list_all (\<lambda>p. json_decoded (snd p)) m)"
| "json_decoded _ = False"

text \<open>
  Two values are JSON-equal when \<^verbatim>\<open>json.Marshal\<close> writes the same text for both. The
  encoder writes a map with its keys sorted, so the entries of every map are put in
  key order before the comparison.
\<close>

fun canon :: "gvalue \<Rightarrow> gvalue" where
  "canon (VSlice xs) = VSlice (map canon xs)"
| "canon (VMap m) = VMap (sort_key fst (map (\<lambda>p. (fst p, canon (snd p))) m))"
| "canon v = v"

definition json_equal :: "gvalue \<Rightarrow> gvalue \<Rightarrow> bool" where
  "json_equal a b = (canon a = canon b)"

section \<open>The library functions the code calls\<close>

datatype error =
    SyntaxError string
  | NilDereference
  | IndexOutOfRange
  | TypeAssertion
  | UnsupportedType string
  | ParseBoolSyntax string
  | NotObject string
  | NotArray string

text \<open>
  \<^verbatim>\<open>strconv.ParseBool\<close> of the Go standard library: it accepts 1, t, T, TRUE, true,
  True, 0, f, F, FALSE, false, False and returns a syntax error for any other text.
\<close>

definition ParseBool :: "string \<Rightarrow> error + gvalue" where
  "ParseBool str =
     (if str \<in> set [''1'', ''t'', ''T'', ''TRUE'', ''true'', ''True''] then Inr (VBool True)
      else if str \<in> set [''0'', ''f'', ''F'', ''FALSE'', ''false'', ''False''] then Inr (VBool False)
      else Inl (ParseBoolSyntax str))"

definition FormatBool :: "bool \<Rightarrow> string" where
  "FormatBool b = (if b then ''true'' else ''false'')"

text \<open>Decimal rendering of integers (\<^verbatim>\<open>%v\<close> on an integer kind).\<close>

definition digit :: "nat \<Rightarrow> char" where
  "digit d = char_of (48 + d)"

fun digits :: "nat \<Rightarrow> nat \<Rightarrow> string" where
  "digits 0 n = []"
| "digits (Suc k) n = (if n < 10 then [digit n] else digits k (n div 10) @ [digit (n mod 10)])"

definition FormatUint :: "nat \<Rightarrow> string" where
  "FormatUint n = digits (Suc n) n"

definition FormatInt :: "int \<Rightarrow> string" where
  "FormatInt i = (if i < 0 then CHR ''-'' # FormatUint (nat (- i)) else FormatUint (nat i))"

text \<open>
  The other library functions are parameters of the model: the decoder
  \<^verbatim>\<open>json.Unmarshal\<close> (from the bytes to a decoded value or a syntax error),
  \<^verbatim>\<open>strconv.FormatFloat(v, 'f', -1, 64)\<close> on the bits of a \<^verbatim>\<open>float64\<close>, the conversion
  \<^verbatim>\<open>float64(v)\<close> of a \<^verbatim>\<open>float32\<close>, and \<^verbatim>\<open>%v\<close> on the two float kinds.
\<close>

record 'b golib =
  Unmarshal :: "'b \<Rightarrow> error + gvalue"
  FormatFloat :: "64 word \<Rightarrow> string"
  float64_of_float32 :: "32 word \<Rightarrow> 64 word"
  Sprint_float32 :: "32 word \<Rightarrow> string"
  Sprint_float64 :: "64 word \<Rightarrow> string"

text \<open>\<^verbatim>\<open>fmt.Sprintf("%v", v)\<close> where the code calls it: on scalars and on \<open>VOther\<close>.\<close>

fun Sprintf_v :: "'b golib \<Rightarrow> gvalue \<Rightarrow> string" where
  "Sprintf_v lib VNil = ''<nil>''"
| "Sprintf_v lib (VString s) = s"
| "Sprintf_v lib (VBool b) = FormatBool b"
| "Sprintf_v lib (VInt w) = FormatInt (sint w)"
| "Sprintf_v lib (VInt8 w) = FormatInt (sint w)"
| "Sprintf_v lib (VInt16 w) = FormatInt (sint w)"
| "Sprintf_v lib (VInt32 w) = FormatInt (sint w)"
| "Sprintf_v lib (VInt64 w) = FormatInt (sint w)"
| "Sprintf_v lib (VUint w) = FormatUint (unat w)"
| "Sprintf_v lib (VUint8 w) = FormatUint (unat w)"
| "Sprintf_v lib (VUint16 w) = FormatUint (unat w)"
| "Sprintf_v lib (VUint32 w) = FormatUint (unat w)"
| "Sprintf_v lib (VUint64 w) = FormatUint (unat w)"
| "Sprintf_v lib (VFloat32 f) = Sprint_float32 lib f"
| "Sprintf_v lib (VFloat64 f) = Sprint_float64 lib f"
| "Sprintf_v lib (VOther ty txt) = txt"
| "Sprintf_v lib (VSlice xs) = []"
| "Sprintf_v lib (VMap m) = []"

text \<open>\<^verbatim>\<open>reflect.TypeOf(v).Name()\<close>: the empty string for an unnamed composite type.\<close>

fun typeName :: "gvalue \<Rightarrow> string" where
  "typeName VNil = []"
| "typeName (VString s) = ''string''"
| "typeName (VBool b) = ''bool''"
| "typeName (VInt w) = ''int''"
| "typeName (VInt8 w) = ''int8''"
| "typeName (VInt16 w) = ''int16''"
| "typeName (VInt32 w) = ''int32''"
| "typeName (VInt64 w) = ''int64''"
| "typeName (VUint w) = ''uint''"
| "typeName (VUint8 w) = ''uint8''"
| "typeName (VUint16 w) = ''uint16''"
| "typeName (VUint32 w) = ''uint32''"
| "typeName (VUint64 w) = ''uint64''"
| "typeName (VFloat32 f) = ''float32''"
| "typeName (VFloat64 f) = ''float64''"
| "typeName (VSlice xs) = []"
| "typeName (VMap m) = []"
| "typeName (VOther ty txt) = ty"

section \<open>Nodes and the heap\<close>

datatype NodeType = DocumentNode | ElementNode | TextNode

type_synonym contentType = string

abbreviation interfaceType :: contentType where "interfaceType \<equiv> ''interface''"
abbreviation arrayType :: contentType where "arrayType \<equiv> ''array''"
abbreviation objectType :: contentType where "objectType \<equiv> ''object''"
abbreviation stringType :: contentType where "stringType \<equiv> ''string''"
abbreviation boolType :: contentType where "boolType \<equiv> ''bool''"
abbreviation nullType :: contentType where "nullType \<equiv> ''null''"
abbreviation intType :: contentType where "intType \<equiv> ''int''"
abbreviation int8Type :: contentType where "int8Type \<equiv> ''int8''"
abbreviation int16Type :: contentType where "int16Type \<equiv> ''int16''"
abbreviation int32Type :: contentType where "int32Type \<equiv> ''int32''"
abbreviation int64Type :: contentType where "int64Type \<equiv> ''int64''"
abbreviation uintType :: contentType where "uintType \<equiv> ''uint''"
abbreviation uint8Type :: contentType where "uint8Type \<equiv> ''uint8''"
abbreviation uint16Type :: contentType where "uint16Type \<equiv> ''uint16''"
abbreviation uint32Type :: contentType where "uint32Type \<equiv> ''uint32''"
abbreviation uint64Type :: contentType where "uint64Type \<equiv> ''uint64''"
abbreviation float32Type :: contentType where "float32Type \<equiv> ''float32''"
abbreviation float64Type :: contentType where "float64Type \<equiv> ''float64''"

definition types :: "string \<Rightarrow> contentType option" where
  "types = map_of
     [(''bool'', boolType), (''string'', stringType),
      (''int'', intType), (''int8'', int8Type), (''int16'', int16Type),
      (''int32'', int32Type), (''int64'', int64Type),
      (''uint'', uintType), (''uint8'', uint8Type), (''uint16'', uint16Type),
      (''uint32'', uint32Type), (''uint64'', uint64Type),
      (''float32'', float32Type), (''float64'', float64Type)]"

text \<open>
  A \<^verbatim>\<open>*Node\<close> is \<open>None\<close> (\<^verbatim>\<open>nil\<close>) or the address of a node in the heap; the heap is the
  list of the nodes allocated so far, a node's address its index. A Go pointer is
  \<^verbatim>\<open>nil\<close> or refers to an allocated node, so every address that occurs is below the
  length of the heap.
\<close>

type_synonym addr = nat

record Node =
  Parent :: "addr option"
  PrevSibling :: "addr option"
  NextSibling :: "addr option"
  FirstChild :: "addr option"
  LastChild :: "addr option"
  Type :: NodeType
  Data :: string
  level :: int
  contentType :: contentType
  idata :: gvalue
  skipped :: bool

type_synonym heap = "Node list"

text \<open>\<^verbatim>\<open>&Node{}\<close>: every field has its zero value.\<close>

definition zeroNode :: Node where
  "zeroNode = \<lparr>Parent = None, PrevSibling = None, NextSibling = None, FirstChild = None,
     LastChild = None, Type = DocumentNode, Data = [], level = 0, contentType = [],
     idata = VNil, skipped = False\<rparr>"

definition alloc :: "Node \<Rightarrow> heap \<Rightarrow> addr \<times> heap" where
  "alloc n h = (length h, h @ [n])"

definition upd :: "heap \<Rightarrow> addr \<Rightarrow> (Node \<Rightarrow> Node) \<Rightarrow> heap" where
  "upd h a f = h[a := f (h ! a)]"

section \<open>Reading the tree\<close>

text \<open>
  The sibling list from a pointer on. A loop over the \<^verbatim>\<open>NextSibling\<close> links of a heap
  of \<open>k\<close> nodes that has not met \<^verbatim>\<open>nil\<close> after \<open>k\<close> nodes is in a cycle and never
  ends: the result is then \<open>None\<close>.
\<close>

fun siblings :: "nat \<Rightarrow> heap \<Rightarrow> addr option \<Rightarrow> addr list option" where
  "siblings k h None = Some []"
| "siblings 0 h (Some a) = None"
| "siblings (Suc k) h (Some a) =
     (case siblings k h (NextSibling (h ! a)) of None \<Rightarrow> None | Some as \<Rightarrow> Some (a # as))"

definition ChildNodes :: "heap \<Rightarrow> addr \<Rightarrow> addr list option" where
  "ChildNodes h n = siblings (length h) h (FirstChild (h ! n))"

text \<open>
  The recursive readers descend through the child links; the first argument bounds the
  depth of the recursion. In a heap of \<open>k\<close> nodes a descent deeper than \<open>k\<close> visits a
  node twice and so never returns: \<open>None\<close> again.
\<close>

fun concat_results :: "string option list \<Rightarrow> string option" where
  "concat_results [] = Some []"
| "concat_results (None # rs) = None"
| "concat_results (Some s # rs) = (case concat_results rs of None \<Rightarrow> None | Some t \<Rightarrow> Some (s @ t))"

fun InnerText_d :: "nat \<Rightarrow> heap \<Rightarrow> addr \<Rightarrow> string option" where
  "InnerText_d 0 h n = None"
| "InnerText_d (Suc k) h n =
     (if Type (h ! n) = TextNode then Some (Data (h ! n))
      else case ChildNodes h n of None \<Rightarrow> None
        | Some cs \<Rightarrow> concat_results (map (InnerText_d k h) cs))"

definition InnerText :: "heap \<Rightarrow> addr \<Rightarrow> string option" where
  "InnerText h n = InnerText_d (length h) h n"

fun InnerData_array :: "(addr \<Rightarrow> gvalue option) \<Rightarrow> heap \<Rightarrow> addr list \<Rightarrow> gvalue list \<Rightarrow> gvalue option" where
  "InnerData_array f h [] arr = Some (VSlice arr)"
| "InnerData_array f h (c # cs) arr =
     (if skipped (h ! c) then InnerData_array f h cs arr
      else case f c of None \<Rightarrow> None | Some v \<Rightarrow> InnerData_array f h cs (arr @ [v]))"

fun InnerData_object :: "(addr \<Rightarrow> gvalue option) \<Rightarrow> heap \<Rightarrow> addr list \<Rightarrow> (string \<times> gvalue) list \<Rightarrow> gvalue option" where
  "InnerData_object f h [] obj = Some (VMap obj)"
| "InnerData_object f h (c # cs) obj =
     (if skipped (h ! c) then InnerData_object f h cs obj
      else case f c of None \<Rightarrow> None
        | Some v \<Rightarrow> InnerData_object f h cs (map_assign obj (Data (h ! c)) v))"

fun InnerData_d :: "nat \<Rightarrow> heap \<Rightarrow> addr \<Rightarrow> gvalue option" where
  "InnerData_d 0 h n = None"
| "InnerData_d (Suc k) h n =
     (case ChildNodes h n of None \<Rightarrow> None
      | Some cs \<Rightarrow>
          if contentType (h ! n) = arrayType then InnerData_array (InnerData_d k h) h cs []
          else if contentType (h ! n) = objectType then InnerData_object (InnerData_d k h) h cs []
          else (case cs of c # _ \<Rightarrow> Some (idata (h ! c)) | [] \<Rightarrow> Some (idata (h ! n))))"

definition InnerData :: "heap \<Rightarrow> addr \<Rightarrow> gvalue option" where
  "InnerData h n = InnerData_d (length h) h n"

section \<open>Projection\<close>

fun JSON_array :: "(addr \<Rightarrow> (error + gvalue) option) \<Rightarrow> heap \<Rightarrow> bool \<Rightarrow> addr list \<Rightarrow> gvalue list \<Rightarrow> (error + gvalue) option" where
  "JSON_array f h sk [] arr = Some (Inr (VSlice arr))"
| "JSON_array f h sk (c # cs) arr =
     (if sk \<and> skipped (h ! c) then JSON_array f h sk cs arr
      else case f c of None \<Rightarrow> None
        | Some (Inl err) \<Rightarrow> Some (Inl err)
        | Some (Inr v) \<Rightarrow> JSON_array f h sk cs (arr @ [v]))"

fun JSON_object :: "(addr \<Rightarrow> (error + gvalue) option) \<Rightarrow> heap \<Rightarrow> bool \<Rightarrow> addr list \<Rightarrow> (string \<times> gvalue) list \<Rightarrow> (error + gvalue) option" where
  "JSON_object f h sk [] obj = Some (Inr (VMap obj))"
| "JSON_object f h sk (c # cs) obj =
     (if sk \<and> skipped (h ! c) then JSON_object f h sk cs obj
      else case f c of None \<Rightarrow> None
        | Some (Inl err) \<Rightarrow> Some (Inl err)
        | Some (Inr v) \<Rightarrow> JSON_object f h sk cs (map_assign obj (Data (h ! c)) v))"

text \<open>
  The type assertions \<^verbatim>\<open>n.InnerData().(int)\<close> and so on succeed when the dynamic type
  of the value is that builtin numeric type itself; a value of any other type panics,
  also a value of a user type that has the name of the builtin type (a \<open>VOther\<close>). The
  value is not \<^verbatim>\<open>nil\<close> here, \<open>JSON\<close> has returned before.
\<close>

fun numeric_type :: "gvalue \<Rightarrow> contentType option" where
  "numeric_type (VInt w) = Some intType"
| "numeric_type (VInt8 w) = Some int8Type"
| "numeric_type (VInt16 w) = Some int16Type"
| "numeric_type (VInt32 w) = Some int32Type"
| "numeric_type (VInt64 w) = Some int64Type"
| "numeric_type (VUint w) = Some uintType"
| "numeric_type (VUint8 w) = Some uint8Type"
| "numeric_type (VUint16 w) = Some uint16Type"
| "numeric_type (VUint32 w) = Some uint32Type"
| "numeric_type (VUint64 w) = Some uint64Type"
| "numeric_type (VFloat32 f) = Some float32Type"
| "numeric_type (VFloat64 f) = Some float64Type"
| "numeric_type v = None"

definition assert_type :: "contentType \<Rightarrow> gvalue \<Rightarrow> error + gvalue" where
  "assert_type ct v = (if numeric_type v = Some ct then Inr v else Inl TypeAssertion)"

fun JSON_d :: "nat \<Rightarrow> heap \<Rightarrow> addr \<Rightarrow> bool \<Rightarrow> (error + gvalue) option" where
  "JSON_d 0 h n sk = None"
| "JSON_d (Suc k) h n sk =
     (case InnerData h n of None \<Rightarrow> None
      | Some d \<Rightarrow>
          if d = VNil then Some (Inr VNil)
          else if contentType (h ! n) = arrayType then
            (case ChildNodes h n of None \<Rightarrow> None
             | Some cs \<Rightarrow> JSON_array (\<lambda>c. JSON_d k h c sk) h sk cs [])
          else if contentType (h ! n) = objectType then
            (case ChildNodes h n of None \<Rightarrow> None
             | Some cs \<Rightarrow> JSON_object (\<lambda>c. JSON_d k h c sk) h sk cs [])
          else if contentType (h ! n) = stringType then Some (Inr d)
          else if contentType (h ! n) \<in> set [intType, int8Type, int16Type, int32Type, int64Type,
                   uintType, uint8Type, uint16Type, uint32Type, uint64Type,
                   float32Type, float64Type] then Some (assert_type (contentType (h ! n)) d)
          else if contentType (h ! n) = boolType then
            (case InnerText h n of None \<Rightarrow> None | Some str \<Rightarrow> Some (ParseBool str))
          else if contentType (h ! n) = nullType then Some (Inr VNil)
          else Some (Inr d))"

definition JSON :: "heap \<Rightarrow> addr \<Rightarrow> bool \<Rightarrow> (error + gvalue) option" where
  "JSON h n sk = JSON_d (length h) h n sk"

definition toMap :: "heap \<Rightarrow> addr \<Rightarrow> bool \<Rightarrow> (error + (string \<times> gvalue) list) option" where
  "toMap h n sk =
     (if contentType (h ! n) \<noteq> objectType then Some (Inl (NotObject (contentType (h ! n))))
      else case JSON h n sk of None \<Rightarrow> None
        | Some (Inl jsonErr) \<Rightarrow> Some (Inl jsonErr)
        | Some (Inr v) \<Rightarrow> (case v of VMap m \<Rightarrow> Some (Inr m) | _ \<Rightarrow> Some (Inl TypeAssertion)))"

fun Maps_loop :: "heap \<Rightarrow> bool \<Rightarrow> addr list \<Rightarrow> (string \<times> gvalue) list list \<Rightarrow> (error + (string \<times> gvalue) list list) option" where
  "Maps_loop h sk [] records = Some (Inr records)"
| "Maps_loop h sk (c # cs) records =
     (if sk \<and> skipped (h ! c) then Maps_loop h sk cs records
      else case toMap h c sk of None \<Rightarrow> None
        | Some (Inl jsonErr) \<Rightarrow> Some (Inl jsonErr)
        | Some (Inr v) \<Rightarrow> Maps_loop h sk cs (records @ [v]))"

definition Maps :: "heap \<Rightarrow> addr \<Rightarrow> bool \<Rightarrow> (error + (string \<times> gvalue) list list) option" where
  "Maps h n sk =
     (if contentType (h ! n) \<noteq> arrayType then Some (Inl (NotArray (contentType (h ! n))))
      else case ChildNodes h n of None \<Rightarrow> None
        | Some cs \<Rightarrow> Maps_loop h sk cs [])"

section \<open>Navigation\<close>

text \<open>
  \<^verbatim>\<open>SelectElement\<close> returns inside its loop, so it follows the links itself; the outer
  \<open>None\<close> is the loop that never ends, \<open>Some None\<close> the result \<^verbatim>\<open>nil\<close>.
\<close>

fun SelectElement_from :: "nat \<Rightarrow> heap \<Rightarrow> addr option \<Rightarrow> string \<Rightarrow> addr option option" where
  "SelectElement_from k h None name = Some None"
| "SelectElement_from k h (Some nn) name =
     (if Data (h ! nn) = name then Some (Some nn)
      else case k of 0 \<Rightarrow> None
        | Suc k' \<Rightarrow> SelectElement_from k' h (NextSibling (h ! nn)) name)"

definition SelectElement :: "heap \<Rightarrow> addr \<Rightarrow> string \<Rightarrow> addr option option" where
  "SelectElement h n name = SelectElement_from (length h) h (FirstChild (h ! n)) name"

text \<open>
  \<^verbatim>\<open>GetParent\<close> reads \<^verbatim>\<open>n.Parent.level\<close> without a check: on a node without parent
  this is the runtime panic of a nil dereference.
\<close>

fun GetParent_d :: "nat \<Rightarrow> heap \<Rightarrow> addr \<Rightarrow> int \<Rightarrow> (error + addr) option" where
  "GetParent_d k h n lvl =
     (case Parent (h ! n) of None \<Rightarrow> Some (Inl NilDereference)
      | Some p \<Rightarrow>
          if level (h ! p) = lvl then Some (Inr p)
          else (case k of 0 \<Rightarrow> None | Suc k' \<Rightarrow> GetParent_d k' h p lvl))"

definition GetParent :: "heap \<Rightarrow> addr \<Rightarrow> int \<Rightarrow> (error + addr) option" where
  "GetParent h n lvl = GetParent_d (length h) h n lvl"

section \<open>Mutation\<close>

definition SetSkipped :: "heap \<Rightarrow> addr \<Rightarrow> bool \<Rightarrow> heap" where
  "SetSkipped h n b = upd h n (\<lambda>x. x\<lparr>skipped := b\<rparr>)"


text \<open>
  The assignments of \<^verbatim>\<open>SetInnerData\<close> on a text node, in the order of the source; a
  panic ends the call (\<open>Inl\<close>).
\<close>

definition SetInnerData_text :: "'b golib \<Rightarrow> heap \<Rightarrow> addr \<Rightarrow> gvalue \<Rightarrow> error + heap" where
  "SetInnerData_text lib h n v =
     (let h1 = upd h n (\<lambda>x. x\<lparr>idata := v\<rparr>) in
      if v = VNil then
        (case Parent (h1 ! n) of None \<Rightarrow> Inl NilDereference
         | Some p \<Rightarrow> Inr (upd h1 p (\<lambda>x. x\<lparr>contentType := nullType\<rparr>)))
      else
        (case types (typeName v) of None \<Rightarrow> Inl (UnsupportedType (typeName v))
         | Some ct \<Rightarrow>
            (case Parent (h1 ! n) of None \<Rightarrow> Inl NilDereference
             | Some p \<Rightarrow>
                 let h2 = upd h1 p (\<lambda>x. x\<lparr>contentType := ct\<rparr>)
                 in Inr (upd h2 n (\<lambda>x. x\<lparr>Data := Sprintf_v lib v\<rparr>)))))"

fun SetInnerData_d :: "nat \<Rightarrow> 'b golib \<Rightarrow> heap \<Rightarrow> addr \<Rightarrow> gvalue \<Rightarrow> (error + heap) option" where
  "SetInnerData_d k lib h n v =
     (if Type (h ! n) = ElementNode then
        (case ChildNodes h n of None \<Rightarrow> None
         | Some [] \<Rightarrow> Some (Inl IndexOutOfRange)
         | Some (c # _) \<Rightarrow> (case k of 0 \<Rightarrow> None | Suc k' \<Rightarrow> SetInnerData_d k' lib h c v))
      else if Type (h ! n) = TextNode then Some (SetInnerData_text lib h n v)
      else Some (Inr h))"

definition SetInnerData :: "'b golib \<Rightarrow> heap \<Rightarrow> addr \<Rightarrow> gvalue \<Rightarrow> (error + heap) option" where
  "SetInnerData lib h n v = SetInnerData_d (length h) lib h n v"

section \<open>Building the tree\<close>

text \<open>
  The closure \<^verbatim>\<open>addNode\<close> of \<^verbatim>\<open>parseValue\<close>, on the new node \<open>n\<close> and the node \<open>tp\<close> (\<^verbatim>\<open>top\<close> in the source).
  \<^verbatim>\<open>t.NextSibling = n\<close> panics when \<^verbatim>\<open>top.LastChild\<close> is \<^verbatim>\<open>nil\<close>.
\<close>

definition addNode :: "addr \<Rightarrow> addr \<Rightarrow> heap \<Rightarrow> error + heap" where
  "addNode n tp h =
     (if level (h ! n) = level (h ! tp) then
        (let h1 = upd h tp (\<lambda>x. x\<lparr>NextSibling := Some n\<rparr>);
             h2 = upd h1 n (\<lambda>x. x\<lparr>PrevSibling := Some tp\<rparr>);
             h3 = upd h2 n (\<lambda>x. x\<lparr>Parent := Parent (h2 ! tp)\<rparr>)
         in case Parent (h3 ! tp) of None \<Rightarrow> Inr h3
            | Some p \<Rightarrow> Inr (upd h3 p (\<lambda>x. x\<lparr>LastChild := Some n\<rparr>)))
      else if level (h ! n) > level (h ! tp) then
        (let h1 = upd h n (\<lambda>x. x\<lparr>Parent := Some tp\<rparr>)
         in case FirstChild (h1 ! tp) of
              None \<Rightarrow>
                (let h2 = upd h1 tp (\<lambda>x. x\<lparr>FirstChild := Some n\<rparr>)
                 in Inr (upd h2 tp (\<lambda>x. x\<lparr>LastChild := Some n\<rparr>)))
            | Some _ \<Rightarrow>
                (case LastChild (h1 ! tp) of None \<Rightarrow> Inl NilDereference
                 | Some t \<Rightarrow>
                    (let h2 = upd h1 t (\<lambda>x. x\<lparr>NextSibling := Some n\<rparr>);
                         h3 = upd h2 n (\<lambda>x. x\<lparr>PrevSibling := Some t\<rparr>)
                     in Inr (upd h3 tp (\<lambda>x. x\<lparr>LastChild := Some n\<rparr>)))))
      else Inr h)"

text \<open>
  Every scalar case of \<^verbatim>\<open>parseValue\<close> sets the tag of \<open>tp\<close> and adds one text node
  with the rendered text \<open>s\<close> and the payload \<open>v\<close>.
\<close>

definition addTextNode :: "contentType \<Rightarrow> string \<Rightarrow> gvalue \<Rightarrow> addr \<Rightarrow> int \<Rightarrow> heap \<Rightarrow> error + heap" where
  "addTextNode ct s v tp lvl h =
     (let h1 = upd h tp (\<lambda>x. x\<lparr>contentType := ct\<rparr>);
          (n, h2) = alloc (zeroNode\<lparr>Data := s, Type := TextNode, level := lvl, idata := v\<rparr>) h1
      in addNode n tp h2)"

text \<open>
  The two loops of \<^verbatim>\<open>parseValue\<close>, over the items of a slice and over the sorted keys
  of a map, have one body: allocate an element node (with the key as \<^verbatim>\<open>Data\<close>, or the
  zero value \<^verbatim>\<open>""\<close> for a slice item), add it under \<open>tp\<close>, and call \<^verbatim>\<open>parseValue\<close>
  on the item with the new node as \<open>tp\<close>, one level deeper. \<open>pv\<close> is that recursive call.
\<close>

fun parseValue_items :: "(gvalue \<Rightarrow> addr \<Rightarrow> int \<Rightarrow> heap \<Rightarrow> error + heap) \<Rightarrow> (string \<times> gvalue) list \<Rightarrow> addr \<Rightarrow> int \<Rightarrow> heap \<Rightarrow> error + heap" where
  "parseValue_items pv [] tp lvl h = Inr h"
| "parseValue_items pv ((key, x) # items) tp lvl h =
     (let (n, h1) = alloc (zeroNode\<lparr>Data := key, Type := ElementNode, level := lvl\<rparr>) h
      in case addNode n tp h1 of Inl err \<Rightarrow> Inl err
         | Inr h2 \<Rightarrow>
             (case pv x n (lvl + 1) h2 of Inl err \<Rightarrow> Inl err
              | Inr h3 \<Rightarrow> parseValue_items pv items tp lvl h3))"

lemma parseValue_items_cong [fundef_cong]:
  assumes "items = items'" "tp = tp'" "lvl = lvl'" "h = h'"
    and "\<And>x n l g. x \<in> snd ` set items' \<Longrightarrow> pv x n l g = pv' x n l g"
  shows "parseValue_items pv items tp lvl h = parseValue_items pv' items' tp' lvl' h'"
  using assms(5) unfolding assms(1-4)
proof (induction items' arbitrary: h')
  case Nil
  then show ?case by simp
next
  case (Cons it items')
  obtain key x where it: "it = (key, x)" by (cases it)
  have a: "\<And>n l g. pv x n l g = pv' x n l g" using Cons.prems it by simp
  have b: "\<And>g. parseValue_items pv items' tp' lvl' g = parseValue_items pv' items' tp' lvl' g"
    using Cons.IH Cons.prems by simp
  show ?case by (simp add: it a b split: prod.splits sum.splits)
qed

lemma size_map_index: "size (map_index m key) < size (VMap m)"
proof (cases "map_of m key")
  case None
  then show ?thesis by (simp add: map_index_def)
next
  case (Some v)
  then have "(key, v) \<in> set m" by (rule map_of_SomeD)
  then have "size v < Suc (size_list (size_prod (\<lambda>_. 0) size) m)"
    by (induction m) auto
  with Some show ?thesis by (simp add: map_index_def)
qed

function parseValue :: "'b golib \<Rightarrow> gvalue \<Rightarrow> addr \<Rightarrow> int \<Rightarrow> heap \<Rightarrow> error + heap" where
  "parseValue lib x tp lvl h =
     (case x of
        VNil \<Rightarrow> addTextNode nullType [] x tp lvl h
      | VSlice xs \<Rightarrow>
          parseValue_items (parseValue lib) (map (\<lambda>item. ([], item)) xs) tp lvl
            (upd h tp (\<lambda>n. n\<lparr>contentType := arrayType\<rparr>))
      | VMap m \<Rightarrow>
          (let keys = sort (map fst m)
           in parseValue_items (parseValue lib) (map (\<lambda>key. (key, map_index m key)) keys) tp lvl
                (upd h tp (\<lambda>n. n\<lparr>contentType := objectType\<rparr>)))
      | VString v \<Rightarrow> addTextNode stringType v x tp lvl h
      | VInt v \<Rightarrow> addTextNode intType (Sprintf_v lib x) x tp lvl h
      | VInt8 v \<Rightarrow> addTextNode int8Type (Sprintf_v lib x) x tp lvl h
      | VInt16 v \<Rightarrow> addTextNode int16Type (Sprintf_v lib x) x tp lvl h
      | VInt32 v \<Rightarrow> addTextNode int32Type (Sprintf_v lib x) x tp lvl h
      | VInt64 v \<Rightarrow> addTextNode int64Type (Sprintf_v lib x) x tp lvl h
      | VUint v \<Rightarrow> addTextNode uintType (Sprintf_v lib x) x tp lvl h
      | VUint8 v \<Rightarrow> addTextNode uint8Type (Sprintf_v lib x) x tp lvl h
      | VUint16 v \<Rightarrow> addTextNode uint16Type (Sprintf_v lib x) x tp lvl h
      | VUint32 v \<Rightarrow> addTextNode uint32Type (Sprintf_v lib x) x tp lvl h
      | VUint64 v \<Rightarrow> addTextNode uint64Type (Sprintf_v lib x) x tp lvl h
      | VFloat32 v \<Rightarrow>
          addTextNode float32Type (FormatFloat lib (float64_of_float32 lib v))
            (VFloat64 (float64_of_float32 lib v)) tp lvl h
      | VFloat64 v \<Rightarrow> addTextNode float64Type (FormatFloat lib v) x tp lvl h
      | VBool v \<Rightarrow> addTextNode boolType (FormatBool v) x tp lvl h
      | VOther ty txt \<Rightarrow> addTextNode interfaceType (Sprintf_v lib x) x tp lvl h)"
  by pat_completeness auto
termination
proof (relation "measure (\<lambda>(lib, x, tp, lvl, h). size x)")
  show "wf (measure (\<lambda>(lib, x, tp, lvl, h). size x))" by simp
next
  fix lib :: "'b golib" and x tp lvl h xs and xa :: gvalue and xb :: addr and xc :: int and xd :: heap
  assume "x = VSlice xs" "xa \<in> snd ` set (map (\<lambda>item. ([], item)) xs)"
  then have "xa \<in> set xs" by auto
  then have "size xa < Suc (size_list size xs)"
    by (induction xs) auto
  with \<open>x = VSlice xs\<close>
  show "((lib, xa, xb, xc, xd), (lib, x, tp, lvl, h)) \<in> measure (\<lambda>(lib, x, tp, lvl, h). size x)"
    by simp
next
  fix lib :: "'b golib" and x tp lvl h m keys and xa :: gvalue and xb :: addr and xc :: int and xd :: heap
  assume "x = VMap m" "xa \<in> snd ` set (map (\<lambda>key. (key, map_index m key)) keys)"
  then obtain key where "xa = map_index m key" by auto
  with \<open>x = VMap m\<close>
  show "((lib, xa, xb, xc, xd), (lib, x, tp, lvl, h)) \<in> measure (\<lambda>(lib, x, tp, lvl, h). size x)"
    using size_map_index [of m key] by simp
qed

text \<open>
  \<^verbatim>\<open>parse\<close> and \<^verbatim>\<open>ParseFromMaps\<close> allocate the document node and build the tree below
  it; the model gives every document a heap of its own, with the document node at
  address 0, and returns the heap with the address.
\<close>

definition parse :: "'b golib \<Rightarrow> 'b \<Rightarrow> error + (heap \<times> addr)" where
  "parse lib b =
     (case Unmarshal lib b of Inl err \<Rightarrow> Inl err
      | Inr v \<Rightarrow>
          (let (doc, h) = alloc (zeroNode\<lparr>Type := DocumentNode\<rparr>) [];
               h1 = (case v of
                       VSlice xs \<Rightarrow> upd h doc (\<lambda>n. n\<lparr>contentType := arrayType\<rparr>)
                     | VMap m \<Rightarrow> upd h doc (\<lambda>n. n\<lparr>contentType := objectType\<rparr>)
                     | _ \<Rightarrow> h)
           in case parseValue lib v doc 1 h1 of Inl err \<Rightarrow> Inl err
              | Inr h2 \<Rightarrow> Inr (h2, doc)))"

definition ParseFromMaps :: "'b golib \<Rightarrow> (string \<times> gvalue) list list \<Rightarrow> error + (heap \<times> addr)" where
  "ParseFromMaps lib maps =
     (let (doc, h) = alloc (zeroNode\<lparr>Type := DocumentNode, contentType := arrayType\<rparr>) []
      in case parseValue lib (VSlice (map VMap maps)) doc 1 h of Inl err \<Rightarrow> Inl err
         | Inr h2 \<Rightarrow> Inr (h2, doc))"

section \<open>Path queries\<close>

text \<open>
  Modelled from the spec: the query engine (\<^verbatim>\<open>Find\<close>) is called by the tests but its
  source file is not among the sources; the definitions of this section follow
  section 4.4 of the specification. The pattern is split on \<^verbatim>\<open>/\<close>; an empty token sets
  the pending axis to descendant; a token is a label or the wildcard \<^verbatim>\<open>*\<close>; the context
  starts as the root alone; the result is the last context without duplicates, in the
  order of first occurrence, and empty when an empty token is the last one.
\<close>

fun split_slash :: "string \<Rightarrow> string list" where
  "split_slash [] = [[]]"
| "split_slash (c # cs) =
     (if c = CHR ''/'' then [] # split_slash cs
      else (case split_slash cs of [] \<Rightarrow> [[c]] | t # ts \<Rightarrow> (c # t) # ts))"

datatype axis = ChildAxis | DescendantAxis

fun concat_lists :: "addr list option list \<Rightarrow> addr list option" where
  "concat_lists [] = Some []"
| "concat_lists (None # rs) = None"
| "concat_lists (Some s # rs) = (case concat_lists rs of None \<Rightarrow> None | Some t \<Rightarrow> Some (s @ t))"

fun descendants_d :: "nat \<Rightarrow> heap \<Rightarrow> addr \<Rightarrow> addr list option" where
  "descendants_d 0 h n = None"
| "descendants_d (Suc k) h n =
     (case ChildNodes h n of None \<Rightarrow> None
      | Some cs \<Rightarrow>
          concat_lists (map (\<lambda>c. case descendants_d k h c of None \<Rightarrow> None
                                   | Some ds \<Rightarrow> Some (c # ds)) cs))"

definition descendants :: "heap \<Rightarrow> addr \<Rightarrow> addr list option" where
  "descendants h n = descendants_d (length h) h n"

definition find_step :: "heap \<Rightarrow> axis \<Rightarrow> string \<Rightarrow> addr \<Rightarrow> addr list option" where
  "find_step h ax token n =
     (case (case ax of ChildAxis \<Rightarrow> ChildNodes h n | DescendantAxis \<Rightarrow> descendants h n) of
        None \<Rightarrow> None
      | Some cs \<Rightarrow> Some (filter (\<lambda>c. token = ''*'' \<or> Data (h ! c) = token) cs))"

definition first_seen :: "addr list \<Rightarrow> addr list" where
  "first_seen ns = rev (remdups (rev ns))"

fun find_tokens :: "heap \<Rightarrow> string list \<Rightarrow> axis \<Rightarrow> addr list \<Rightarrow> addr list option" where
  "find_tokens h [] ax ctx = Some (if ax = DescendantAxis then [] else first_seen ctx)"
| "find_tokens h (token # tokens) ax ctx =
     (if token = [] then find_tokens h tokens DescendantAxis ctx
      else case concat_lists (map (find_step h ax token) ctx) of None \<Rightarrow> None
        | Some ctx' \<Rightarrow> find_tokens h tokens ChildAxis ctx')"

definition Find :: "heap \<Rightarrow> addr \<Rightarrow> string \<Rightarrow> addr list option" where
  "Find h root pattern = find_tokens h (split_slash pattern) ChildAxis [root]"

section \<open>Trees in the heap\<close>

text \<open>
  The shape of a tree of nodes, as the addresses of its nodes: \<open>AT a ts\<close> is the node
  at address \<open>a\<close> with the subtrees \<open>ts\<close> of its children, in sibling order. A heap
  has this shape at \<open>a\<close> when the child list of every node of the tree is the list of its
  subtrees' roots and the parent link of every child is set.
\<close>

datatype atree = AT addr "atree list"

fun at_addr :: "atree \<Rightarrow> addr" where "at_addr (AT a ts) = a"
fun kids :: "atree \<Rightarrow> atree list" where "kids (AT a ts) = ts"

fun addrs :: "atree \<Rightarrow> addr list" where
  "addrs (AT a ts) = a # concat (map addrs ts)"

fun chain :: "heap \<Rightarrow> addr option \<Rightarrow> addr list \<Rightarrow> bool" where
  "chain h p [] = (p = None)"
| "chain h p (a # as) = (p = Some a \<and> chain h (NextSibling (h ! a)) as)"

fun shaped :: "heap \<Rightarrow> atree \<Rightarrow> bool" where
  "shaped h (AT a ts) =
     (chain h (FirstChild (h ! a)) (map at_addr ts) \<and>
      (\<forall>t \<in> set ts. Parent (h ! at_addr t) = Some a \<and> shaped h t))"

definition is_tree :: "heap \<Rightarrow> atree \<Rightarrow> bool" where
  "is_tree h t = (shaped h t \<and> distinct (addrs t) \<and> (\<forall>a \<in> set (addrs t). a < length h))"

text \<open>What one scalar case of parseValue stores: tag, text, payload.\<close>

fun leaf :: "'b golib \<Rightarrow> gvalue \<Rightarrow> (contentType \<times> string \<times> gvalue) option" where
  "leaf lib VNil = Some (nullType, [], VNil)"
| "leaf lib (VSlice xs) = None"
| "leaf lib (VMap m) = None"
| "leaf lib (VString v) = Some (stringType, v, VString v)"
| "leaf lib (VFloat32 v) = Some (float32Type, FormatFloat lib (float64_of_float32 lib v), VFloat64 (float64_of_float32 lib v))"
| "leaf lib (VFloat64 v) = Some (float64Type, FormatFloat lib v, VFloat64 v)"
| "leaf lib (VBool v) = Some (boolType, FormatBool v, VBool v)"
| "leaf lib (VOther ty txt) = Some (interfaceType, txt, VOther ty txt)"
| "leaf lib x = Some (typeName x, Sprintf_v lib x, x)"

fun items :: "gvalue \<Rightarrow> (string \<times> gvalue) list" where
  "items (VSlice xs) = map (\<lambda>item. ([], item)) xs"
| "items (VMap m) = map (\<lambda>key. (key, map_index m key)) (sort (map fst m))"
| "items x = []"

fun container_tag :: "gvalue \<Rightarrow> contentType" where
  "container_tag (VSlice xs) = arrayType"
| "container_tag (VMap m) = objectType"
| "container_tag x = []"

declare parseValue.simps [simp del]

lemma parseValue_leaf:
  "leaf lib x = Some (ct, s, v) \<Longrightarrow> parseValue lib x tp lvl h = addTextNode ct s v tp lvl h"
  by (cases x) (auto simp add: parseValue.simps)

lemma parseValue_container:
  "leaf lib x = None \<Longrightarrow>
   parseValue lib x tp lvl h =
     parseValue_items (parseValue lib) (items x) tp lvl (upd h tp (\<lambda>n. n\<lparr>contentType := container_tag x\<rparr>))"
  by (cases x) (auto simp add: parseValue.simps)

lemma size_items: "y \<in> snd ` set (items x) \<Longrightarrow> size y < size x"
proof (cases x)
  case (VSlice xs)
  assume "y \<in> snd ` set (items x)"
  with VSlice have "y \<in> set xs" by auto
  then have "size y < Suc (size_list size xs)" by (induction xs) auto
  with VSlice show ?thesis by simp
next
  case (VMap m)
  assume "y \<in> snd ` set (items x)"
  with VMap obtain key where "y = map_index m key" by auto
  with VMap show ?thesis using size_map_index [of m key] by simp
qed auto

function holds :: "'b golib \<Rightarrow> heap \<Rightarrow> int \<Rightarrow> atree \<Rightarrow> gvalue \<Rightarrow> bool" where
  "holds lib h lvl (AT a ts) x =
     (case leaf lib x of
        Some (ct, s, v) \<Rightarrow>
          contentType (h ! a) = ct \<and>
          (case ts of
             [AT c []] \<Rightarrow> Type (h ! c) = TextNode \<and> Data (h ! c) = s \<and> idata (h ! c) = v \<and>
                level (h ! c) = lvl \<and> contentType (h ! c) = []
           | _ \<Rightarrow> False)
      | None \<Rightarrow>
          contentType (h ! a) = container_tag x \<and>
          list_all2 (\<lambda>t it. Type (h ! at_addr t) = ElementNode \<and> Data (h ! at_addr t) = fst it \<and>
                        level (h ! at_addr t) = lvl \<and> holds lib h (lvl + 1) t (snd it))
            ts (items x))"
  by pat_completeness auto
termination
proof (relation "measure (\<lambda>(lib, h, lvl, t, x). size x)")
  show "wf (measure (\<lambda>(lib, h, lvl, t, x). size x))" by simp
next
  fix lib :: "'b golib" and h lvl a ts x and t :: atree and it :: "string \<times> gvalue"
  assume "it \<in> set (items x)"
  then have "snd it \<in> snd ` set (items x)" by simp
  then show "((lib, h, lvl + 1, t, snd it), (lib, h, lvl, AT a ts, x)) \<in> measure (\<lambda>(lib, h, lvl, t, x). size x)"
    using size_items by simp
qed


declare holds.simps [simp del]

definition child_ok :: "'b golib \<Rightarrow> heap \<Rightarrow> int \<Rightarrow> atree \<Rightarrow> string \<times> gvalue \<Rightarrow> bool" where
  "child_ok lib h lvl t it =
     (Type (h ! at_addr t) = ElementNode \<and> Data (h ! at_addr t) = fst it \<and>
      level (h ! at_addr t) = lvl \<and> holds lib h (lvl + 1) t (snd it))"

lemma holds_container:
  "leaf lib x = None \<Longrightarrow>
   holds lib h lvl (AT a ts) x =
     (contentType (h ! a) = container_tag x \<and> list_all2 (child_ok lib h lvl) ts (items x))"
  by (simp add: holds.simps child_ok_def [abs_def])

lemma holds_leaf:
  "leaf lib x = Some (ct, s, v) \<Longrightarrow>
   holds lib h lvl (AT a ts) x =
     (contentType (h ! a) = ct \<and>
      (\<exists>c. ts = [AT c []] \<and> Type (h ! c) = TextNode \<and> Data (h ! c) = s \<and> idata (h ! c) = v \<and>
           level (h ! c) = lvl \<and> contentType (h ! c) = []))"
  by (auto simp add: holds.simps split: list.splits atree.splits)

definition keeps :: "Node \<Rightarrow> Node \<Rightarrow> bool" where
  "keeps m n =
     (Parent m = Parent n \<and> PrevSibling m = PrevSibling n \<and> NextSibling m = NextSibling n \<and>
      Type m = Type n \<and> Data m = Data n \<and> level m = level n \<and> idata m = idata n \<and>
      skipped m = skipped n)"

definition same_content :: "Node \<Rightarrow> Node \<Rightarrow> bool" where
  "same_content m n =
     (Type m = Type n \<and> Data m = Data n \<and> level m = level n \<and> idata m = idata n \<and>
      contentType m = contentType n)"

lemma at_addr_in_addrs: "at_addr t \<in> set (addrs t)"
  by (cases t) simp

lemma chain_frame:
  "\<forall>a \<in> set as. NextSibling (h' ! a) = NextSibling (h ! a) \<Longrightarrow> chain h' p as = chain h p as"
  by (induction as arbitrary: p) auto

lemma shaped_frame:
  assumes "\<forall>a \<in> set (addrs t). FirstChild (h' ! a) = FirstChild (h ! a)"
    and "\<forall>a \<in> set (concat (map addrs (kids t))).
           NextSibling (h' ! a) = NextSibling (h ! a) \<and> Parent (h' ! a) = Parent (h ! a)"
  shows "shaped h' t = shaped h t"
  using assms
proof (induction t)
  case (AT a ts)
  have c: "chain h' (FirstChild (h' ! a)) (map at_addr ts) = chain h (FirstChild (h ! a)) (map at_addr ts)"
  proof -
    have "\<forall>b \<in> set (map at_addr ts). NextSibling (h' ! b) = NextSibling (h ! b)"
    proof
      fix b assume "b \<in> set (map at_addr ts)"
      then obtain t where t: "t \<in> set ts" "b = at_addr t" by auto
      have "b \<in> set (addrs t)" using t(2) at_addr_in_addrs by simp
      with t AT.prems(2) show "NextSibling (h' ! b) = NextSibling (h ! b)" by auto
    qed
    then have "chain h' (FirstChild (h' ! a)) (map at_addr ts) = chain h (FirstChild (h' ! a)) (map at_addr ts)"
      by (rule chain_frame)
    with AT.prems(1) show ?thesis by simp
  qed
  have k: "\<forall>t \<in> set ts. (Parent (h' ! at_addr t) = Some a \<and> shaped h' t) = (Parent (h ! at_addr t) = Some a \<and> shaped h t)"
  proof
    fix t assume t: "t \<in> set ts"
    then have sub: "set (addrs t) \<subseteq> set (concat (map addrs ts))" by auto
    have r: "at_addr t \<in> set (addrs t)" by (rule at_addr_in_addrs)
    have "set (concat (map addrs (kids t))) \<subseteq> set (addrs t)" by (cases t) auto
    with sub AT.prems have "shaped h' t = shaped h t"
      by (intro AT.IH [OF t]) auto
    moreover have "Parent (h' ! at_addr t) = Parent (h ! at_addr t)"
      using AT.prems(2) sub r by auto
    ultimately show "(Parent (h' ! at_addr t) = Some a \<and> shaped h' t) = (Parent (h ! at_addr t) = Some a \<and> shaped h t)"
      by simp
  qed
  show ?case using c k by auto
qed

lemma holds_frame:
  assumes "\<forall>a \<in> set (addrs t). same_content (h' ! a) (h ! a)"
  shows "holds lib h' lvl t x = holds lib h lvl t x"
  using assms
proof (induction x arbitrary: t lvl rule: measure_induct_rule [where f = size])
  case (less x)
  obtain a ts where t: "t = AT a ts" by (cases t)
  show ?case
  proof (cases "leaf lib x")
    case None
    have "list_all2 (child_ok lib h' lvl) ts (items x) = list_all2 (child_ok lib h lvl) ts (items x)"
    proof (rule list.rel_cong [OF refl refl])
      fix u it assume u: "u \<in> set ts" "it \<in> set (items x)"
      then have "size (snd it) < size x" using size_items [of "snd it" x] by simp
      moreover have "\<forall>a \<in> set (addrs u). same_content (h' ! a) (h ! a)"
        using less.prems u(1) t by auto
      ultimately have "holds lib h' (lvl + 1) u (snd it) = holds lib h (lvl + 1) u (snd it)"
        by (rule less.IH)
      moreover have "same_content (h' ! at_addr u) (h ! at_addr u)"
        using less.prems u(1) t at_addr_in_addrs [of u] by auto
      ultimately show "child_ok lib h' lvl u it = child_ok lib h lvl u it"
        by (simp add: child_ok_def same_content_def)
    qed
    moreover have "contentType (h' ! a) = contentType (h ! a)"
      using less.prems t by (simp add: same_content_def)
    ultimately show ?thesis using None t by (simp add: holds_container)
  next
    case (Some r)
    obtain ct s v where r: "r = (ct, s, v)" by (cases r)
    have a: "same_content (h' ! a) (h ! a)" using less.prems t by simp
    have "\<And>c. ts = [AT c []] \<Longrightarrow> same_content (h' ! c) (h ! c)"
      using less.prems t by simp
    with a show ?thesis using Some r t
      by (auto simp add: holds_leaf same_content_def)
  qed
qed


lemma chain_snoc:
  assumes "chain h p as" "as \<noteq> []" "distinct as" "n \<notin> set as"
    and "NextSibling (h2 ! last as) = Some n" "NextSibling (h2 ! n) = None"
    and "\<forall>a \<in> set (butlast as). NextSibling (h2 ! a) = NextSibling (h ! a)"
  shows "chain h2 p (as @ [n])"
  using assms
proof (induction as arbitrary: p)
  case Nil
  then show ?case by simp
next
  case (Cons a as)
  show ?case
  proof (cases "as = []")
    case True
    with Cons.prems show ?thesis by simp
  next
    case False
    with Cons.prems have "chain h2 (NextSibling (h ! a)) (as @ [n])"
      by (intro Cons.IH) auto
    moreover from False Cons.prems have "NextSibling (h2 ! a) = NextSibling (h ! a)" by simp
    ultimately show ?thesis using Cons.prems(1) by simp
  qed
qed

lemma addNode_append:
  assumes tp: "tp < length h" and lv: "level (h ! tp) < level node"
    and ch: "chain h (FirstChild (h ! tp)) as"
    and la: "as \<noteq> [] \<Longrightarrow> LastChild (h ! tp) = Some (last as)"
    and bound: "\<forall>a \<in> set as. a < length h \<and> a \<noteq> tp"
  shows "\<exists>h2. addNode (length h) tp (h @ [node]) = Inr h2 \<and> length h2 = Suc (length h) \<and>
           h2 ! length h = node\<lparr>Parent := Some tp,
              PrevSibling := (if as = [] then PrevSibling node else Some (last as))\<rparr> \<and>
           h2 ! tp = (h ! tp)\<lparr>FirstChild := (if as = [] then Some (length h) else FirstChild (h ! tp)),
              LastChild := Some (length h)\<rparr> \<and>
           (as \<noteq> [] \<longrightarrow> h2 ! last as = (h ! last as)\<lparr>NextSibling := Some (length h)\<rparr>) \<and>
           (\<forall>a < length h. a \<noteq> tp \<longrightarrow> (as = [] \<or> a \<noteq> last as) \<longrightarrow> h2 ! a = h ! a)"
proof (cases "as = []")
  case True
  with ch have "FirstChild (h ! tp) = None" by simp
  with tp lv True show ?thesis
    by (simp add: addNode_def upd_def Let_def nth_append nth_list_update)
next
  case False
  then obtain f where f: "FirstChild (h ! tp) = Some f" using ch by (cases as) auto
  from False bound have l: "last as < length h" "last as \<noteq> tp" by auto
  from la False have "LastChild (h ! tp) = Some (last as)" by simp
  with tp lv False f l show ?thesis
    by (simp add: addNode_def upd_def Let_def nth_append nth_list_update)
qed

definition built :: "'b golib \<Rightarrow> gvalue \<Rightarrow> addr \<Rightarrow> int \<Rightarrow> heap \<Rightarrow> heap \<Rightarrow> atree list \<Rightarrow> bool" where
  "built lib y n l g g' ts =
     (length g \<le> length g' \<and> (\<forall>a < length g. a \<noteq> n \<longrightarrow> g' ! a = g ! a) \<and>
      keeps (g' ! n) (g ! n) \<and> shaped g' (AT n ts) \<and>
      concat (map addrs ts) = [length g..<length g'] \<and> holds lib g' l (AT n ts) y \<and>
      (\<forall>a. length g \<le> a \<and> a < length g' \<longrightarrow> \<not> skipped (g' ! a)))"

definition loop_inv :: "'b golib \<Rightarrow> addr \<Rightarrow> int \<Rightarrow> nat \<Rightarrow> heap \<Rightarrow> atree list \<Rightarrow> (string \<times> gvalue) list \<Rightarrow> bool" where
  "loop_inv lib tp lvl b h ts its =
     (tp < b \<and> b \<le> length h \<and> level (h ! tp) < lvl \<and>
      chain h (FirstChild (h ! tp)) (map at_addr ts) \<and>
      (ts \<noteq> [] \<longrightarrow> LastChild (h ! tp) = Some (at_addr (last ts))) \<and>
      (\<forall>t \<in> set ts. Parent (h ! at_addr t) = Some tp \<and> shaped h t) \<and>
      concat (map addrs ts) = [b..<length h] \<and>
      list_all2 (child_ok lib h lvl) ts its \<and>
      (\<forall>a. b \<le> a \<and> a < length h \<longrightarrow> \<not> skipped (h ! a)))"


lemma distinct_roots: "distinct (concat (map addrs ts)) \<Longrightarrow> distinct (map at_addr ts)"
proof (induction ts)
  case Nil
  then show ?case by simp
next
  case (Cons t ts)
  have "at_addr t \<notin> at_addr ` set ts"
  proof
    assume "at_addr t \<in> at_addr ` set ts"
    then obtain u where u: "u \<in> set ts" "at_addr u = at_addr t" by auto
    have "at_addr u \<in> set (addrs u)" by (rule at_addr_in_addrs)
    with u have "at_addr t \<in> set (concat (map addrs ts))" by auto
    moreover have "at_addr t \<in> set (addrs t)" by (rule at_addr_in_addrs)
    ultimately show False using Cons.prems by auto
  qed
  with Cons show ?case by simp
qed

lemma distinct_concat_elem: "distinct (concat xss) \<Longrightarrow> xs \<in> set xss \<Longrightarrow> distinct xs"
  by (induction xss) auto

lemma distinct_concat_disj:
  "distinct (concat xss) \<Longrightarrow> xs \<in> set xss \<Longrightarrow> ys \<in> set xss \<Longrightarrow> xs \<noteq> ys \<Longrightarrow> set xs \<inter> set ys = {}"
  by (induction xss) auto

lemma root_not_inner:
  assumes "distinct (concat (map addrs ts))" "t \<in> set ts" "u \<in> set ts"
    and "a \<in> set (concat (map addrs (kids t)))"
  shows "a \<noteq> at_addr u"
proof
  assume eq: "a = at_addr u"
  obtain r ks where t: "t = AT r ks" by (cases t)
  have dt: "distinct (addrs t)"
    using distinct_concat_elem [OF assms(1), of "addrs t"] assms(2) by simp
  have au: "a \<in> set (addrs u)" using eq at_addr_in_addrs by simp
  have at: "a \<in> set (addrs t)" using assms(4) t by simp
  show False
  proof (cases "addrs t = addrs u")
    case True
    then have "at_addr u = r" using t by (cases u) simp
    with eq dt assms(4) t show False by simp
  next
    case False
    have "addrs t \<in> set (map addrs ts)" "addrs u \<in> set (map addrs ts)"
      using assms(2,3) by auto
    with assms(1) False have "set (addrs t) \<inter> set (addrs u) = {}"
      using distinct_concat_disj [of "map addrs ts" "addrs t" "addrs u"] by blast
    with au at show False by auto
  qed
qed

lemma last_not_in_butlast: "distinct as \<Longrightarrow> a \<in> set (butlast as) \<Longrightarrow> a \<noteq> last as"
  by (cases as rule: rev_cases) auto

lemma items_step:
  assumes inv: "loop_inv lib tp lvl b h ts0 its0"
    and pv: "\<And>n l g. n < length g \<Longrightarrow> FirstChild (g ! n) = None \<Longrightarrow> level (g ! n) < l \<Longrightarrow>
               \<exists>g' ts. pv y n l g = Inr g' \<and> built lib y n l g g' ts"
  shows "\<exists>h2 h3 t. addNode (length h) tp (h @ [zeroNode\<lparr>Data := key, Type := ElementNode, level := lvl\<rparr>]) = Inr h2 \<and>
           pv y (length h) (lvl + 1) h2 = Inr h3 \<and>
           loop_inv lib tp lvl b h3 (ts0 @ [t]) (its0 @ [(key, y)]) \<and>
           length h \<le> length h3 \<and> keeps (h3 ! tp) (h ! tp) \<and>
           contentType (h3 ! tp) = contentType (h ! tp) \<and>
           (\<forall>a < b. a \<noteq> tp \<longrightarrow> h3 ! a = h ! a)"
proof -
  define node where "node = zeroNode\<lparr>Data := key, Type := ElementNode, level := lvl\<rparr>"
  define n where "n = length h"
  define as where "as = map at_addr ts0"
  have nodef: "Parent node = None" "PrevSibling node = None" "NextSibling node = None"
    "FirstChild node = None" "Type node = ElementNode" "Data node = key" "level node = lvl"
    "skipped node = False"
    by (simp_all add: node_def zeroNode_def)
  from inv have tpb: "tp < b" and bn: "b \<le> n" and lv: "level (h ! tp) < lvl"
    and ch: "chain h (FirstChild (h ! tp)) as"
    and la: "ts0 \<noteq> [] \<Longrightarrow> LastChild (h ! tp) = Some (at_addr (last ts0))"
    and sh: "\<forall>t \<in> set ts0. Parent (h ! at_addr t) = Some tp \<and> shaped h t"
    and ad: "concat (map addrs ts0) = [b..<n]"
    and ok: "list_all2 (child_ok lib h lvl) ts0 its0"
    and ns: "\<forall>a. b \<le> a \<and> a < n \<longrightarrow> \<not> skipped (h ! a)"
    by (simp_all add: loop_inv_def n_def as_def)
  have dist: "distinct (concat (map addrs ts0))" using ad by simp
  have das: "distinct as" unfolding as_def using dist by (rule distinct_roots)
  have sub: "\<And>t. t \<in> set ts0 \<Longrightarrow> set (addrs t) \<subseteq> {b..<n}"
  proof -
    fix t assume "t \<in> set ts0"
    then have "set (addrs t) \<subseteq> set (concat (map addrs ts0))" by auto
    with ad show "set (addrs t) \<subseteq> {b..<n}" by simp
  qed
  have asb: "\<forall>a \<in> set as. b \<le> a \<and> a < n"
  proof
    fix a assume "a \<in> set as"
    then obtain t where t: "t \<in> set ts0" "a = at_addr t" by (auto simp: as_def)
    with at_addr_in_addrs [of t] sub [of t] show "b \<le> a \<and> a < n" by auto
  qed
  then have asb': "\<forall>a \<in> set as. a < length h \<and> a \<noteq> tp" using tpb by (auto simp: n_def)
  have lastas: "ts0 \<noteq> [] \<Longrightarrow> last as = at_addr (last ts0)" by (simp add: as_def last_map)
  have la': "as \<noteq> [] \<Longrightarrow> LastChild (h ! tp) = Some (last as)"
    using la lastas by (simp add: as_def)
  have tpn: "tp < length h" using tpb bn by (simp add: n_def)
  from addNode_append [OF tpn _ ch la' asb', of node] lv nodef(7)
  obtain h2 where h2: "addNode n tp (h @ [node]) = Inr h2" "length h2 = Suc n"
      "h2 ! n = node\<lparr>Parent := Some tp, PrevSibling := (if as = [] then PrevSibling node else Some (last as))\<rparr>"
      "h2 ! tp = (h ! tp)\<lparr>FirstChild := (if as = [] then Some n else FirstChild (h ! tp)), LastChild := Some n\<rparr>"
      "as \<noteq> [] \<longrightarrow> h2 ! last as = (h ! last as)\<lparr>NextSibling := Some n\<rparr>"
      "\<forall>a < n. a \<noteq> tp \<longrightarrow> (as = [] \<or> a \<noteq> last as) \<longrightarrow> h2 ! a = h ! a"
    unfolding n_def by auto
  have "n < length h2" "FirstChild (h2 ! n) = None" "level (h2 ! n) < lvl + 1"
    using h2(2,3) nodef by simp_all
  from pv [OF this] obtain h3 tsn where h3: "pv y n (lvl + 1) h2 = Inr h3"
    and bl: "built lib y n (lvl + 1) h2 h3 tsn" by blast
  from bl have len: "length h2 \<le> length h3"
    and fr: "\<forall>a < length h2. a \<noteq> n \<longrightarrow> h3 ! a = h2 ! a"
    and kp: "keeps (h3 ! n) (h2 ! n)"
    and shn: "shaped h3 (AT n tsn)"
    and adn: "concat (map addrs tsn) = [length h2..<length h3]"
    and hon: "holds lib h3 (lvl + 1) (AT n tsn) y"
    and nsn: "\<forall>a. length h2 \<le> a \<and> a < length h3 \<longrightarrow> \<not> skipped (h3 ! a)"
    by (simp_all add: built_def)
  have tp3: "h3 ! tp = h2 ! tp" using fr tpb bn h2(2) by simp
  have old: "\<forall>a < n. a \<noteq> tp \<longrightarrow>
      h3 ! a = h ! a \<or> (as \<noteq> [] \<and> a = last as \<and> h3 ! a = (h ! a)\<lparr>NextSibling := Some n\<rparr>)"
  proof (intro allI impI)
    fix a assume a: "a < n" "a \<noteq> tp"
    then have "h3 ! a = h2 ! a" using fr h2(2) by simp
    with a h2(5,6) show "h3 ! a = h ! a \<or> (as \<noteq> [] \<and> a = last as \<and> h3 ! a = (h ! a)\<lparr>NextSibling := Some n\<rparr>)"
      by (cases "as = [] \<or> a \<noteq> last as") auto
  qed
  have oldw: "\<And>a. a < n \<Longrightarrow> a \<noteq> tp \<Longrightarrow>
      FirstChild (h3 ! a) = FirstChild (h ! a) \<and> Parent (h3 ! a) = Parent (h ! a) \<and>
      same_content (h3 ! a) (h ! a) \<and> skipped (h3 ! a) = skipped (h ! a)"
  proof -
    fix a assume "a < n" "a \<noteq> tp"
    with old have "h3 ! a = h ! a \<or> h3 ! a = (h ! a)\<lparr>NextSibling := Some n\<rparr>" by blast
    then show "FirstChild (h3 ! a) = FirstChild (h ! a) \<and> Parent (h3 ! a) = Parent (h ! a) \<and>
      same_content (h3 ! a) (h ! a) \<and> skipped (h3 ! a) = skipped (h ! a)"
      by (auto simp: same_content_def)
  qed
  have n3: "Parent (h3 ! n) = Some tp" "NextSibling (h3 ! n) = None" "Type (h3 ! n) = ElementNode"
    "Data (h3 ! n) = key" "level (h3 ! n) = lvl" "skipped (h3 ! n) = False"
    using kp h2(3) nodef by (simp_all add: keeps_def)
  have c3: "chain h3 (FirstChild (h3 ! tp)) (as @ [n])"
  proof (cases "as = []")
    case True
    then show ?thesis using tp3 h2(4) n3 by simp
  next
    case False
    have "chain h3 (FirstChild (h ! tp)) (as @ [n])"
    proof (rule chain_snoc [OF ch False das])
      show "n \<notin> set as" using asb by auto
      have "last as \<in> set as" using False by simp
      then have "last as < n" "last as \<noteq> tp" using asb tpb by auto
      then show "NextSibling (h3 ! last as) = Some n" using fr h2(2,5) False by simp
      show "NextSibling (h3 ! n) = None" by (rule n3)
      show "\<forall>a \<in> set (butlast as). NextSibling (h3 ! a) = NextSibling (h ! a)"
      proof
        fix a assume a: "a \<in> set (butlast as)"
        then have "a \<noteq> last as" using das by (rule last_not_in_butlast [rotated])
        moreover have "a \<in> set as" using a by (rule in_set_butlastD)
        then have "a < n" "a \<noteq> tp" using asb tpb by auto
        ultimately show "NextSibling (h3 ! a) = NextSibling (h ! a)" using old by auto
      qed
    qed
    with False tp3 h2(4) show ?thesis by simp
  qed
  have oldtrees: "\<forall>t \<in> set ts0. Parent (h3 ! at_addr t) = Some tp \<and> shaped h3 t \<and>
      (\<forall>a \<in> set (addrs t). same_content (h3 ! a) (h ! a) \<and> skipped (h3 ! a) = skipped (h ! a))"
  proof
    fix t assume t: "t \<in> set ts0"
    have rng: "\<And>a. a \<in> set (addrs t) \<Longrightarrow> a < n \<and> a \<noteq> tp"
      using sub [OF t] tpb by auto
    have f: "\<forall>a \<in> set (addrs t). FirstChild (h3 ! a) = FirstChild (h ! a)"
      using oldw rng by blast
    have g: "\<forall>a \<in> set (concat (map addrs (kids t))).
        NextSibling (h3 ! a) = NextSibling (h ! a) \<and> Parent (h3 ! a) = Parent (h ! a)"
    proof
      fix a assume a: "a \<in> set (concat (map addrs (kids t)))"
      then have "a \<in> set (addrs t)" by (cases t) auto
      then have r: "a < n" "a \<noteq> tp" using rng by auto
      have "as \<noteq> [] \<Longrightarrow> a \<noteq> last as"
      proof -
        assume "as \<noteq> []"
        then have "ts0 \<noteq> []" by (simp add: as_def)
        then have "last ts0 \<in> set ts0" by simp
        from root_not_inner [OF dist t this a] show "a \<noteq> last as"
          using lastas \<open>ts0 \<noteq> []\<close> by simp
      qed
      with old r have "h3 ! a = h ! a" by auto
      then show "NextSibling (h3 ! a) = NextSibling (h ! a) \<and> Parent (h3 ! a) = Parent (h ! a)"
        by simp
    qed
    have "shaped h3 t = shaped h t" using f g by (rule shaped_frame)
    moreover have "Parent (h3 ! at_addr t) = Parent (h ! at_addr t)"
      using oldw rng [OF at_addr_in_addrs] by blast
    moreover have "\<forall>a \<in> set (addrs t). same_content (h3 ! a) (h ! a) \<and> skipped (h3 ! a) = skipped (h ! a)"
      using oldw rng by blast
    ultimately show "Parent (h3 ! at_addr t) = Some tp \<and> shaped h3 t \<and>
      (\<forall>a \<in> set (addrs t). same_content (h3 ! a) (h ! a) \<and> skipped (h3 ! a) = skipped (h ! a))"
      using sh t by simp
  qed
  have ok3: "list_all2 (child_ok lib h3 lvl) (ts0 @ [AT n tsn]) (its0 @ [(key, y)])"
  proof (rule list_all2_appendI)
    show "list_all2 (child_ok lib h3 lvl) ts0 its0"
    proof (rule list.rel_mono_strong [OF ok])
      fix t it assume t: "t \<in> set ts0" and c: "child_ok lib h lvl t it"
      have sc: "\<forall>a \<in> set (addrs t). same_content (h3 ! a) (h ! a)" using oldtrees t by simp
      then have "holds lib h3 (lvl + 1) t (snd it) = holds lib h (lvl + 1) t (snd it)"
        by (rule holds_frame)
      moreover have "same_content (h3 ! at_addr t) (h ! at_addr t)"
        using sc at_addr_in_addrs by simp
      ultimately show "child_ok lib h3 lvl t it"
        using c by (simp add: child_ok_def same_content_def)
    qed
    show "list_all2 (child_ok lib h3 lvl) [AT n tsn] [(key, y)]"
      using n3 hon by (simp add: child_ok_def)
  qed
  have ad3: "concat (map addrs (ts0 @ [AT n tsn])) = [b..<length h3]"
  proof -
    have "n # [Suc n..<length h3] = [n..<length h3]"
      using len h2(2) by (simp add: upt_conv_Cons)
    then have "concat (map addrs (ts0 @ [AT n tsn])) = [b..<n] @ [n..<length h3]"
      using ad adn h2(2) by simp
    also have "\<dots> = [b..<length h3]"
      using bn len h2(2) by (metis Suc_leD le_Suc_ex upt_add_eq_append)
    finally show ?thesis .
  qed
  have ns3: "\<forall>a. b \<le> a \<and> a < length h3 \<longrightarrow> \<not> skipped (h3 ! a)"
  proof (intro allI impI)
    fix a assume a: "b \<le> a \<and> a < length h3"
    consider "a < n" | "a = n" | "n < a" by linarith
    then show "\<not> skipped (h3 ! a)"
    proof cases
      case 1
      then have "a \<noteq> tp" using a tpb by simp
      with 1 oldw have "skipped (h3 ! a) = skipped (h ! a)" by blast
      with ns a 1 show ?thesis by simp
    next
      case 2
      then show ?thesis using n3 by simp
    next
      case 3
      then show ?thesis using nsn a h2(2) by simp
    qed
  qed
  have inv3: "loop_inv lib tp lvl b h3 (ts0 @ [AT n tsn]) (its0 @ [(key, y)])"
    unfolding loop_inv_def
  proof (intro conjI)
    show "tp < b" by (rule tpb)
    show "b \<le> length h3" using bn len h2(2) by simp
    show "level (h3 ! tp) < lvl" using tp3 h2(4) lv by simp
    show "chain h3 (FirstChild (h3 ! tp)) (map at_addr (ts0 @ [AT n tsn]))"
      using c3 by (simp add: as_def)
    show "ts0 @ [AT n tsn] \<noteq> [] \<longrightarrow> LastChild (h3 ! tp) = Some (at_addr (last (ts0 @ [AT n tsn])))"
      using tp3 h2(4) by simp
    show "\<forall>t \<in> set (ts0 @ [AT n tsn]). Parent (h3 ! at_addr t) = Some tp \<and> shaped h3 t"
      using oldtrees n3 shn by auto
    show "concat (map addrs (ts0 @ [AT n tsn])) = [b..<length h3]" by (rule ad3)
    show "list_all2 (child_ok lib h3 lvl) (ts0 @ [AT n tsn]) (its0 @ [(key, y)])" by (rule ok3)
    show "\<forall>a. b \<le> a \<and> a < length h3 \<longrightarrow> \<not> skipped (h3 ! a)" by (rule ns3)
  qed
  have "keeps (h3 ! tp) (h ! tp)" "contentType (h3 ! tp) = contentType (h ! tp)"
    using tp3 h2(4) by (simp_all add: keeps_def)
  moreover have "\<forall>a < b. a \<noteq> tp \<longrightarrow> h3 ! a = h ! a"
  proof (intro allI impI)
    fix a assume a: "a < b" "a \<noteq> tp"
    have "as \<noteq> [] \<Longrightarrow> b \<le> last as" using asb last_in_set by blast
    with a have "as = [] \<or> a \<noteq> last as" by auto
    moreover have "a < n" using a bn by simp
    ultimately show "h3 ! a = h ! a" using a old by blast
  qed
  moreover have "length h \<le> length h3" using len h2(2) by (simp add: n_def)
  ultimately show ?thesis using h2(1) h3 inv3 unfolding n_def node_def by blast
qed


lemma keeps_trans: "keeps a b \<Longrightarrow> keeps b c \<Longrightarrow> keeps a c"
  by (simp add: keeps_def)

lemma items_loop:
  assumes "\<And>y n l g. y \<in> snd ` set its \<Longrightarrow> n < length g \<Longrightarrow> FirstChild (g ! n) = None \<Longrightarrow>
               level (g ! n) < l \<Longrightarrow> \<exists>g' ts. pv y n l g = Inr g' \<and> built lib y n l g g' ts"
    and "loop_inv lib tp lvl b h ts0 its0"
  shows "\<exists>h' ts1. parseValue_items pv its tp lvl h = Inr h' \<and>
           loop_inv lib tp lvl b h' (ts0 @ ts1) (its0 @ its) \<and>
           length h \<le> length h' \<and> keeps (h' ! tp) (h ! tp) \<and>
           contentType (h' ! tp) = contentType (h ! tp) \<and>
           (\<forall>a < b. a \<noteq> tp \<longrightarrow> h' ! a = h ! a)"
  using assms
proof (induction its arbitrary: h ts0 its0)
  case Nil
  then show ?case by (auto simp: keeps_def intro: exI [of _ "[]"])
next
  case (Cons it its)
  obtain key y where it: "it = (key, y)" by (cases it)
  have pvy: "\<And>n l g. n < length g \<Longrightarrow> FirstChild (g ! n) = None \<Longrightarrow> level (g ! n) < l \<Longrightarrow>
               \<exists>g' ts. pv y n l g = Inr g' \<and> built lib y n l g g' ts"
    using Cons.prems(1) [of y] it by simp
  from items_step [where pv = pv and y = y and key = key, OF Cons.prems(2) pvy]
  obtain h2 h3 t where st:
    "addNode (length h) tp (h @ [zeroNode\<lparr>Data := key, Type := ElementNode, level := lvl\<rparr>]) = Inr h2"
    "pv y (length h) (lvl + 1) h2 = Inr h3"
    "loop_inv lib tp lvl b h3 (ts0 @ [t]) (its0 @ [(key, y)])"
    "length h \<le> length h3" "keeps (h3 ! tp) (h ! tp)"
    "contentType (h3 ! tp) = contentType (h ! tp)"
    "\<forall>a < b. a \<noteq> tp \<longrightarrow> h3 ! a = h ! a"
    by blast
  have rest: "\<And>y n l g. y \<in> snd ` set its \<Longrightarrow> n < length g \<Longrightarrow> FirstChild (g ! n) = None \<Longrightarrow>
               level (g ! n) < l \<Longrightarrow> \<exists>g' ts. pv y n l g = Inr g' \<and> built lib y n l g g' ts"
    using Cons.prems(1) by simp
  from Cons.IH [OF rest st(3)]
  obtain h' ts1 where fin:
    "parseValue_items pv its tp lvl h3 = Inr h'"
    "loop_inv lib tp lvl b h' ((ts0 @ [t]) @ ts1) ((its0 @ [(key, y)]) @ its)"
    "length h3 \<le> length h'" "keeps (h' ! tp) (h3 ! tp)"
    "contentType (h' ! tp) = contentType (h3 ! tp)"
    "\<forall>a < b. a \<noteq> tp \<longrightarrow> h' ! a = h3 ! a"
    by blast
  have run: "parseValue_items pv (it # its) tp lvl h = Inr h'"
    using st(1,2) fin(1) it by (simp add: alloc_def)
  have "loop_inv lib tp lvl b h' (ts0 @ (t # ts1)) (its0 @ it # its)"
    using fin(2) it by simp
  moreover have "keeps (h' ! tp) (h ! tp)" using fin(4) st(5) by (rule keeps_trans)
  moreover have "\<forall>a < b. a \<noteq> tp \<longrightarrow> h' ! a = h ! a" using fin(6) st(7) by simp
  ultimately show ?case using run st(4,6) fin(3,5) by (intro exI [of _ h'] exI [of _ "t # ts1"]) simp
qed

theorem parseValue_built:
  "n < length g \<Longrightarrow> FirstChild (g ! n) = None \<Longrightarrow> level (g ! n) < l \<Longrightarrow>
   \<exists>g' ts. parseValue lib x n l g = Inr g' \<and> built lib x n l g g' ts"
proof (induction x arbitrary: n l g rule: measure_induct_rule [where f = size])
  case (less x)
  show ?case
  proof (cases "leaf lib x")
    case (Some r)
    obtain ct s v where r: "r = (ct, s, v)" by (cases r)
    define g1 where "g1 = upd g n (\<lambda>x. x\<lparr>contentType := ct\<rparr>)"
    define node where "node = zeroNode\<lparr>Data := s, Type := TextNode, level := l, idata := v\<rparr>"
    have g1: "length g1 = length g" "g1 ! n = (g ! n)\<lparr>contentType := ct\<rparr>"
      "\<forall>a. a \<noteq> n \<longrightarrow> g1 ! a = g ! a"
      using less.prems(1) by (simp_all add: g1_def upd_def)
    have c1: "chain g1 (FirstChild (g1 ! n)) []" using g1(2) less.prems(2) by simp
    have t1: "n < length g1" using g1(1) less.prems(1) by simp
    have l1: "level (g1 ! n) < level node" using g1(2) less.prems(3) by (simp add: node_def)
    have "\<exists>h2. addNode (length g1) n (g1 @ [node]) = Inr h2 \<and> length h2 = Suc (length g1) \<and>
           h2 ! length g1 = node\<lparr>Parent := Some n,
              PrevSibling := (if ([]::addr list) = [] then PrevSibling node else Some (last []))\<rparr> \<and>
           h2 ! n = (g1 ! n)\<lparr>FirstChild := (if ([]::addr list) = [] then Some (length g1) else FirstChild (g1 ! n)),
              LastChild := Some (length g1)\<rparr> \<and>
           (([]::addr list) \<noteq> [] \<longrightarrow> h2 ! last [] = (g1 ! last [])\<lparr>NextSibling := Some (length g1)\<rparr>) \<and>
           (\<forall>a < length g1. a \<noteq> n \<longrightarrow> (([]::addr list) = [] \<or> a \<noteq> last []) \<longrightarrow> h2 ! a = g1 ! a)"
      by (rule addNode_append [OF t1 l1 c1]) simp_all
    then obtain g2 where g2: "addNode (length g) n (g1 @ [node]) = Inr g2" "length g2 = Suc (length g)"
        "g2 ! length g = node\<lparr>Parent := Some n, PrevSibling := PrevSibling node\<rparr>"
        "g2 ! n = (g1 ! n)\<lparr>FirstChild := Some (length g), LastChild := Some (length g)\<rparr>"
        "\<forall>a < length g. a \<noteq> n \<longrightarrow> g2 ! a = g1 ! a"
      unfolding g1(1) by auto
    have run: "parseValue lib x n l g = Inr g2"
      using Some r g2(1) g1(1)
      by (simp add: parseValue_leaf [of lib x ct s v] addTextNode_def alloc_def g1_def node_def)
    have "built lib x n l g g2 [AT (length g) []]"
      unfolding built_def
    proof (intro conjI)
      show "length g \<le> length g2" using g2(2) by simp
      show "\<forall>a < length g. a \<noteq> n \<longrightarrow> g2 ! a = g ! a" using g2(5) g1(3) by simp
      show "keeps (g2 ! n) (g ! n)" using g2(4) g1(2) by (simp add: keeps_def)
      show "shaped g2 (AT n [AT (length g) []])"
        using g2(3,4) by (simp add: node_def zeroNode_def)
      show "concat (map addrs [AT (length g) []]) = [length g..<length g2]"
        using g2(2) by simp
      show "holds lib g2 l (AT n [AT (length g) []]) x"
        using Some r g2(3,4) g1(2) by (simp add: holds_leaf node_def zeroNode_def)
      show "\<forall>a. length g \<le> a \<and> a < length g2 \<longrightarrow> \<not> skipped (g2 ! a)"
      proof (intro allI impI)
        fix a assume "length g \<le> a \<and> a < length g2"
        then have "a = length g" using g2(2) by simp
        then show "\<not> skipped (g2 ! a)" using g2(3) by (simp add: node_def zeroNode_def)
      qed
    qed
    with run show ?thesis by blast
  next
    case None
    define g0 where "g0 = upd g n (\<lambda>m. m\<lparr>contentType := container_tag x\<rparr>)"
    have g0: "length g0 = length g" "g0 ! n = (g ! n)\<lparr>contentType := container_tag x\<rparr>"
      "\<forall>a. a \<noteq> n \<longrightarrow> g0 ! a = g ! a"
      using less.prems(1) by (simp_all add: g0_def upd_def)
    have "\<forall>a. length g \<le> a \<and> a < length g0 \<longrightarrow> \<not> skipped (g0 ! a)"
      using g0(1) by auto
    then have inv0: "loop_inv lib n l (length g) g0 [] []"
      using less.prems g0(1,2) by (simp add: loop_inv_def)
    have ih: "\<And>y m k f. y \<in> snd ` set (items x) \<Longrightarrow> m < length f \<Longrightarrow> FirstChild (f ! m) = None \<Longrightarrow>
               level (f ! m) < k \<Longrightarrow> \<exists>f' ts. parseValue lib y m k f = Inr f' \<and> built lib y m k f f' ts"
    proof -
      fix y m k and f :: heap
      assume y: "y \<in> snd ` set (items x)" and p: "m < length f" "FirstChild (f ! m) = None" "level (f ! m) < k"
      from y have "size y < size x" by (rule size_items)
      from less.IH [OF this p]
      show "\<exists>f' ts. parseValue lib y m k f = Inr f' \<and> built lib y m k f f' ts" .
    qed
    have "\<exists>h' ts1. parseValue_items (parseValue lib) (items x) n l g0 = Inr h' \<and>
           loop_inv lib n l (length g) h' ([] @ ts1) ([] @ items x) \<and>
           length g0 \<le> length h' \<and> keeps (h' ! n) (g0 ! n) \<and>
           contentType (h' ! n) = contentType (g0 ! n) \<and>
           (\<forall>a < length g. a \<noteq> n \<longrightarrow> h' ! a = g0 ! a)"
      using ih inv0 by (rule items_loop)
    then obtain g' ts where fin: "parseValue_items (parseValue lib) (items x) n l g0 = Inr g'"
        "loop_inv lib n l (length g) g' ts (items x)" "length g0 \<le> length g'"
        "keeps (g' ! n) (g0 ! n)" "contentType (g' ! n) = contentType (g0 ! n)"
        "\<forall>a < length g. a \<noteq> n \<longrightarrow> g' ! a = g0 ! a"
      unfolding append_Nil by blast
    have run: "parseValue lib x n l g = Inr g'"
      using None fin(1) by (simp add: parseValue_container g0_def)
    have "built lib x n l g g' ts"
      unfolding built_def
    proof (intro conjI)
      show "length g \<le> length g'" using fin(3) g0(1) by simp
      show "\<forall>a < length g. a \<noteq> n \<longrightarrow> g' ! a = g ! a" using fin(6) g0(3) by simp
      show "keeps (g' ! n) (g ! n)" using fin(4) g0(2) by (simp add: keeps_def)
      show "shaped g' (AT n ts)" using fin(2) by (simp add: loop_inv_def)
      show "concat (map addrs ts) = [length g..<length g']" using fin(2) by (simp add: loop_inv_def)
      show "holds lib g' l (AT n ts) x"
        using None fin(2,5) g0(2) by (simp add: holds_container loop_inv_def)
      show "\<forall>a. length g \<le> a \<and> a < length g' \<longrightarrow> \<not> skipped (g' ! a)"
        using fin(2) by (simp add: loop_inv_def)
    qed
    with run show ?thesis by blast
  qed
qed


section \<open>Example documents\<close>

text \<open>
  A library whose decoder returns the value \<open>v\<close> and whose float rendering is \<open>fmt\<close>, and
  the tree \<^verbatim>\<open>Parse\<close> builds with it. The examples give the decoded value of the
  document they name.
\<close>

definition lib_of :: "gvalue \<Rightarrow> (64 word \<Rightarrow> string) \<Rightarrow> string golib" where
  "lib_of v fmt = \<lparr>Unmarshal = (\<lambda>b. Inr v), FormatFloat = fmt, float64_of_float32 = (\<lambda>w. 0),
     Sprint_float32 = (\<lambda>w. []), Sprint_float64 = fmt\<rparr>"

definition parsed :: "string golib \<Rightarrow> heap \<times> addr" where
  "parsed lib = (case parse lib [] of Inr r \<Rightarrow> r | Inl err \<Rightarrow> ([], 0))"

text \<open>The doubles 1, 2 and 11.\<close>

definition f64_1 :: "64 word" where "f64_1 = 0x3FF0000000000000"
definition f64_2 :: "64 word" where "f64_2 = 0x4000000000000000"
definition f64_11 :: "64 word" where "f64_11 = 0x4026000000000000"

definition small_float :: "64 word \<Rightarrow> string" where
  "small_float w =
     (if w = f64_1 then ''1'' else if w = f64_2 then ''2'' else if w = f64_11 then ''11'' else ''?'')"

text \<open>\<^verbatim>\<open>[{"id":1,"asset_id":1,"layers":[{"asset_id":11}]},{"id":2,"asset_id":2}]\<close>\<close>

definition assets_value :: gvalue where
  "assets_value = VSlice
     [VMap [(''id'', VFloat64 f64_1), (''asset_id'', VFloat64 f64_1),
            (''layers'', VSlice [VMap [(''asset_id'', VFloat64 f64_11)]])],
      VMap [(''id'', VFloat64 f64_2), (''asset_id'', VFloat64 f64_2)]]"

definition assets :: heap where
  "assets = fst (parsed (lib_of assets_value small_float))"

text \<open>\<^verbatim>\<open>{"name":"John","id":1}\<close>\<close>

definition john_value :: gvalue where
  "john_value = VMap [(''name'', VString ''John''), (''id'', VFloat64 f64_1)]"

definition john :: heap where
  "john = fst (parsed (lib_of john_value small_float))"

text \<open>\<^verbatim>\<open>[1,{"id":2}]\<close>\<close>

definition mixed_value :: gvalue where
  "mixed_value = VSlice [VFloat64 f64_1, VMap [(''id'', VFloat64 f64_2)]]"

definition mixed :: heap where
  "mixed = fst (parsed (lib_of mixed_value small_float))"

text \<open>\<^verbatim>\<open>true\<close>\<close>

definition flag :: heap where
  "flag = fst (parsed (lib_of (VBool True) small_float))"

section \<open>Ancestors\<close>

text \<open>The proper ancestors of a node, nearest first; \<open>None\<close> when the parent links cycle.\<close>

fun ancestors_d :: "nat \<Rightarrow> heap \<Rightarrow> addr \<Rightarrow> addr list option" where
  "ancestors_d k h n =
     (case Parent (h ! n) of None \<Rightarrow> Some []
      | Some p \<Rightarrow> (case k of 0 \<Rightarrow> None
          | Suc k' \<Rightarrow> (case ancestors_d k' h p of None \<Rightarrow> None | Some as \<Rightarrow> Some (p # as))))"

definition ancestors :: "heap \<Rightarrow> addr \<Rightarrow> addr list option" where
  "ancestors h n = ancestors_d (length h) h n"

lemma GetParent_d_ancestors:
  "ancestors_d k h n = Some as \<Longrightarrow>
   GetParent_d k h n lvl =
     Some (case find (\<lambda>a. level (h ! a) = lvl) as of None \<Rightarrow> Inl NilDereference | Some a \<Rightarrow> Inr a)"
proof (induction k arbitrary: n as)
  case 0
  then show ?case by (auto split: option.splits)
next
  case (Suc k)
  show ?case
  proof (cases "Parent (h ! n)")
    case None
    with Suc.prems show ?thesis by simp
  next
    case (Some p)
    with Suc.prems obtain bs where bs: "ancestors_d k h p = Some bs" "as = p # bs"
      by (auto split: option.splits)
    from Suc.IH [OF bs(1)] Some bs(2) show ?thesis by simp
  qed
qed

text \<open>
  C7 (as amended). \<^verbatim>\<open>GetParent\<close> walks the parent links. When the links from \<open>n\<close> end at a
  root, it returns the nearest proper ancestor whose level is the requested one; when
  there is none the walk passes the root and the call panics on the nil dereference of
  \<^verbatim>\<open>n.Parent.level\<close>: there is no error result, and the call does not loop.
\<close>

theorem GetParent_ancestors:
  "ancestors h n = Some as \<Longrightarrow>
   GetParent h n lvl =
     Some (case find (\<lambda>a. level (h ! a) = lvl) as of None \<Rightarrow> Inl NilDereference | Some a \<Rightarrow> Inr a)"
  unfolding ancestors_def GetParent_def by (rule GetParent_d_ancestors)

theorem GetParent_ancestors_witness:
  "ancestors assets 9 = Some [8, 7, 6, 1, 0] \<and> GetParent assets 9 2 = Some (Inr 6) \<and>
   GetParent assets 9 7 = Some (Inl NilDereference)"
proof -
  have a: "ancestors assets 9 = Some [8, 7, 6, 1, 0]" by code_simp
  have b: "find (\<lambda>a. level (assets ! a) = 2) [8, 7, 6, 1, 0] = Some 6" by code_simp
  have c: "find (\<lambda>a. level (assets ! a) = 7) [8, 7, 6, 1, 0] = None" by code_simp
  from GetParent_ancestors [OF a, of 2] GetParent_ancestors [OF a, of 7] a b c
  show ?thesis by simp
qed

text \<open>
  The claim as stated fails: on the document node, and for a level below the root's, the
  call ends in the nil-dereference panic, not in an error result.
\<close>

theorem GetParent_root_panics:
  "GetParent assets 0 0 = Some (Inl NilDereference) \<and>
   GetParent assets 9 (- 1) = Some (Inl NilDereference)"
  by code_simp

section \<open>Boolean leaves\<close>

text \<open>
  C6 (as amended). On a node tagged \<^verbatim>\<open>bool\<close> whose value is not nil, \<^verbatim>\<open>JSON\<close> returns what
  \<^verbatim>\<open>strconv.ParseBool\<close> makes of the node's text: it fails exactly when the text is none
  of the twelve spellings that function accepts, and gives the boolean otherwise, so
  \<^verbatim>\<open>true\<close> and \<^verbatim>\<open>false\<close> give their values.
\<close>

theorem JSON_bool:
  assumes "contentType (h ! n) = boolType" "InnerData h n = Some d" "d \<noteq> VNil"
    and "InnerText h n = Some str"
  shows "JSON h n sk = Some (ParseBool str) \<and>
         ((\<exists>err. JSON h n sk = Some (Inl err)) \<longleftrightarrow>
            str \<notin> set [''1'', ''t'', ''T'', ''TRUE'', ''true'', ''True'',
                        ''0'', ''f'', ''F'', ''FALSE'', ''false'', ''False'']) \<and>
         (str = ''true'' \<longrightarrow> JSON h n sk = Some (Inr (VBool True))) \<and>
         (str = ''false'' \<longrightarrow> JSON h n sk = Some (Inr (VBool False)))"
proof -
  have "length h \<noteq> 0" using assms(2) by (auto simp: InnerData_def)
  then obtain k where k: "length h = Suc k" by (cases "length h") auto
  have j: "JSON h n sk = Some (ParseBool str)"
    using assms by (simp add: JSON_def k)
  show ?thesis unfolding j by (auto simp: ParseBool_def)
qed

theorem JSON_bool_witness:
  "contentType (flag ! 0) = boolType \<and> InnerData flag 0 = Some (VBool True) \<and>
   InnerText flag 0 = Some ''true'' \<and> JSON flag 0 False = Some (Inr (VBool True))"
proof -
  have a: "contentType (flag ! 0) = boolType" by code_simp
  have b: "InnerData flag 0 = Some (VBool True)" by code_simp
  have c: "InnerText flag 0 = Some ''true''" by code_simp
  from JSON_bool [OF a b _ c, of False] a b c show ?thesis by (simp add: ParseBool_def)
qed

text \<open>
  The claim as stated fails: with the text \<^verbatim>\<open>1\<close> (the exported field \<^verbatim>\<open>Data\<close> of the
  text node assigned by a caller) the text is neither \<^verbatim>\<open>true\<close> nor \<^verbatim>\<open>false\<close>, and the
  call does not fail.
\<close>

theorem JSON_bool_accepts_1:
  "contentType (upd flag 1 (\<lambda>x. x\<lparr>Data := ''1''\<rparr>) ! 0) = boolType \<and>
   InnerText (upd flag 1 (\<lambda>x. x\<lparr>Data := ''1''\<rparr>)) 0 = Some ''1'' \<and>
   JSON (upd flag 1 (\<lambda>x. x\<lparr>Data := ''1''\<rparr>)) 0 False = Some (Inr (VBool True))"
  by code_simp

section \<open>Selecting a child\<close>

lemma SelectElement_from_siblings:
  "siblings k h p = Some cs \<Longrightarrow>
   SelectElement_from k h p name = Some (find (\<lambda>c. Data (h ! c) = name) cs)"
proof (induction k arbitrary: p cs)
  case 0
  then show ?case by (cases p) auto
next
  case (Suc k)
  show ?case
  proof (cases p)
    case None
    with Suc.prems show ?thesis by simp
  next
    case (Some a)
    with Suc.prems obtain as where as: "siblings k h (NextSibling (h ! a)) = Some as" "cs = a # as"
      by (auto split: option.splits)
    from Suc.IH [OF as(1)] Some as(2) show ?thesis by simp
  qed
qed

text \<open>
  C9. \<^verbatim>\<open>SelectElement\<close> returns the first immediate child whose \<^verbatim>\<open>Data\<close> is the name,
  whatever the type of the child, and nil when no immediate child has that \<^verbatim>\<open>Data\<close>. On
  an element that holds a scalar the only child is the text node, so its text is what
  the name is compared with.
\<close>

theorem SelectElement_first_match:
  "ChildNodes h n = Some cs \<Longrightarrow>
   SelectElement h n name = Some (find (\<lambda>c. Data (h ! c) = name) cs)"
  unfolding ChildNodes_def SelectElement_def by (rule SelectElement_from_siblings)

theorem SelectElement_first_match_witness:
  "ChildNodes john 3 = Some [4] \<and> Type (john ! 3) = ElementNode \<and> Type (john ! 4) = TextNode \<and>
   Data (john ! 4) = ''John'' \<and> SelectElement john 3 ''John'' = Some (Some 4) \<and>
   SelectElement john 3 ''name'' = Some None"
proof -
  have a: "ChildNodes john 3 = Some [4]" by code_simp
  have b: "Type (john ! 3) = ElementNode \<and> Type (john ! 4) = TextNode \<and> Data (john ! 4) = ''John''"
    by code_simp
  from SelectElement_first_match [OF a, of "''John''"] SelectElement_first_match [OF a, of "''name''"] a b
  show ?thesis by simp
qed


section \<open>The query of the tests\<close>

text \<open>
  C3. On the tree parsed from
  \<^verbatim>\<open>[{"id":1,"asset_id":1,"layers":[{"asset_id":11}]},{"id":2,"asset_id":2}]\<close> the pattern
  \<^verbatim>\<open>*/asset_id\<close> finds two nodes, in order and without duplicates, both labelled
  \<^verbatim>\<open>asset_id\<close>, with the values 1 and 2; the nested \<^verbatim>\<open>asset_id\<close> node with the value 11
  (at address 8) is not among them.
\<close>

theorem Find_asset_ids:
  "Find assets 0 ''*/asset_id'' = Some [2, 11] \<and> distinct [2, 11 :: addr] \<and>
   map (\<lambda>n. Data (assets ! n)) [2, 11] = [''asset_id'', ''asset_id''] \<and>
   map (InnerData assets) [2, 11] = [Some (VFloat64 f64_1), Some (VFloat64 f64_2)] \<and>
   Data (assets ! 8) = ''asset_id'' \<and> InnerData assets 8 = Some (VFloat64 f64_11) \<and>
   8 \<notin> set [2, 11 :: addr]"
  by code_simp

section \<open>Record arrays\<close>

lemma Maps_loop_all:
  "\<forall>c \<in> set cs. \<not> (sk \<and> skipped (h ! c)) \<longrightarrow> toMap h c sk = Some (Inr (f c)) \<Longrightarrow>
   Maps_loop h sk cs records =
     Some (Inr (records @ map f (filter (\<lambda>c. \<not> (sk \<and> skipped (h ! c))) cs)))"
  by (induction cs arbitrary: records) auto

lemma Maps_loop_error:
  assumes "\<forall>c \<in> set pre. \<not> (sk \<and> skipped (h ! c)) \<longrightarrow> toMap h c sk = Some (Inr (f c))"
    and "\<not> (sk \<and> skipped (h ! c))" "toMap h c sk = Some (Inl err)"
  shows "Maps_loop h sk (pre @ c # post) records = Some (Inl err)"
  using assms by (induction pre arbitrary: records) auto

lemma Maps_loop_success_tags:
  "Maps_loop h sk cs records = Some (Inr r) \<Longrightarrow> c \<in> set cs \<Longrightarrow> \<not> (sk \<and> skipped (h ! c)) \<Longrightarrow>
   contentType (h ! c) = objectType"
proof (induction cs arbitrary: records)
  case Nil
  then show ?case by simp
next
  case (Cons a cs)
  show ?case
  proof (cases "sk \<and> skipped (h ! a)")
    case True
    with Cons show ?thesis by auto
  next
    case False
    with Cons.prems(1) obtain v where v: "toMap h a sk = Some (Inr v)"
      "Maps_loop h sk cs (records @ [v]) = Some (Inr r)"
      by (auto split: option.splits sum.splits)
    have "contentType (h ! a) = objectType"
      using v(1) by (auto simp: toMap_def split: if_splits)
    with Cons.IH [OF v(2)] Cons.prems(2,3) show ?thesis by auto
  qed
qed

text \<open>
  C10. With the flag set, \<^verbatim>\<open>Maps\<close> passes over an excluded child before \<^verbatim>\<open>toMap\<close> checks
  its tag: when every child that is not excluded converts, the call succeeds with their
  records, whatever the tags of the excluded children. Without the flag, a child that
  is not object-tagged makes the call fail, and with the shape error of that child when
  the children before it convert.
\<close>

theorem Maps_skips_before_check:
  assumes "contentType (h ! n) = arrayType" "ChildNodes h n = Some cs"
  shows "((\<forall>c \<in> set cs. \<not> skipped (h ! c) \<longrightarrow> toMap h c True = Some (Inr (f c))) \<longrightarrow>
            Maps h n True = Some (Inr (map f (filter (\<lambda>c. \<not> skipped (h ! c)) cs)))) \<and>
         ((\<exists>c \<in> set cs. contentType (h ! c) \<noteq> objectType) \<longrightarrow>
            (\<forall>r. Maps h n False \<noteq> Some (Inr r))) \<and>
         (\<forall>pre c post. cs = pre @ c # post \<and> contentType (h ! c) \<noteq> objectType \<and>
            (\<forall>b \<in> set pre. toMap h b False = Some (Inr (f b))) \<longrightarrow>
            Maps h n False = Some (Inl (NotObject (contentType (h ! c)))))"
proof (intro conjI impI allI)
  assume "\<forall>c \<in> set cs. \<not> skipped (h ! c) \<longrightarrow> toMap h c True = Some (Inr (f c))"
  then have "Maps_loop h True cs [] = Some (Inr ([] @ map f (filter (\<lambda>c. \<not> (True \<and> skipped (h ! c))) cs)))"
    by (intro Maps_loop_all) simp
  with assms show "Maps h n True = Some (Inr (map f (filter (\<lambda>c. \<not> skipped (h ! c)) cs)))"
    by (simp add: Maps_def)
next
  fix r
  assume "\<exists>c \<in> set cs. contentType (h ! c) \<noteq> objectType"
  then obtain c where c: "c \<in> set cs" "contentType (h ! c) \<noteq> objectType" by blast
  show "Maps h n False \<noteq> Some (Inr r)"
  proof
    assume "Maps h n False = Some (Inr r)"
    with assms have "Maps_loop h False cs [] = Some (Inr r)" by (simp add: Maps_def)
    from Maps_loop_success_tags [OF this c(1)] c(2) show False by simp
  qed
next
  fix pre c post
  assume a: "cs = pre @ c # post \<and> contentType (h ! c) \<noteq> objectType \<and>
            (\<forall>b \<in> set pre. toMap h b False = Some (Inr (f b)))"
  then have "toMap h c False = Some (Inl (NotObject (contentType (h ! c))))"
    by (simp add: toMap_def)
  with a have "Maps_loop h False (pre @ c # post) [] = Some (Inl (NotObject (contentType (h ! c))))"
    by (intro Maps_loop_error [where f = f]) auto
  with assms a show "Maps h n False = Some (Inl (NotObject (contentType (h ! c))))"
    by (simp add: Maps_def)
qed

theorem Maps_skips_before_check_witness:
  "contentType (SetSkipped mixed 1 True ! 0) = arrayType \<and>
   ChildNodes (SetSkipped mixed 1 True) 0 = Some [1, 3] \<and>
   skipped (SetSkipped mixed 1 True ! 1) \<and>
   contentType (SetSkipped mixed 1 True ! 1) = float64Type \<and>
   Maps (SetSkipped mixed 1 True) 0 True = Some (Inr [[(''id'', VFloat64 f64_2)]]) \<and>
   Maps (SetSkipped mixed 1 True) 0 False = Some (Inl (NotObject float64Type))"
proof -
  define h where "h = SetSkipped mixed 1 True"
  have a: "contentType (h ! 0) = arrayType" unfolding h_def by code_simp
  have b: "ChildNodes h 0 = Some [1, 3]" unfolding h_def by code_simp
  have c: "skipped (h ! 1) \<and> \<not> skipped (h ! 3) \<and> contentType (h ! 1) = float64Type"
    unfolding h_def by code_simp
  have d: "toMap h 3 True = Some (Inr [(''id'', VFloat64 f64_2)])" unfolding h_def by code_simp
  note T = Maps_skips_before_check [OF a b, of "\<lambda>c. [(''id'', VFloat64 f64_2)]"]
  have m1: "Maps h 0 True = Some (Inr [[(''id'', VFloat64 f64_2)]])"
    using T c d by simp
  have "[1, 3] = [] @ 1 # [3] \<and> contentType (h ! 1) \<noteq> objectType \<and>
          (\<forall>b \<in> set []. toMap h b False = Some (Inr [(''id'', VFloat64 f64_2)])) \<longrightarrow>
        Maps h 0 False = Some (Inl (NotObject (contentType (h ! 1))))"
    using T by blast
  then have m2: "Maps h 0 False = Some (Inl (NotObject float64Type))"
    using c by simp
  from m1 m2 a b c show ?thesis unfolding h_def by simp
qed


section \<open>Reading a tree\<close>

fun depth :: "atree \<Rightarrow> nat" where
  "depth (AT a ts) = Suc (foldr max (map depth ts) 0)"

lemma depth_child: "t \<in> set ts \<Longrightarrow> depth t < depth (AT a ts)"
proof -
  have "t \<in> set ts \<Longrightarrow> depth t \<le> foldr max (map depth ts) 0"
    by (induction ts) auto
  then show "t \<in> set ts \<Longrightarrow> depth t < depth (AT a ts)" by simp
qed

lemma depth_le_addrs: "depth t \<le> length (addrs t)"
proof (induction t)
  case (AT a ts)
  have "foldr max (map depth ts) 0 \<le> length (concat (map addrs ts))"
    using AT by (induction ts) (auto simp: max_def le_SucI trans_le_add1 trans_le_add2)
  then show ?case by simp
qed

lemma addrs_bound:
  assumes "distinct as" "\<forall>a \<in> set as. a < n"
  shows "length as \<le> n"
proof -
  have "card (set as) \<le> card {..<n}"
    using assms(2) by (intro card_mono) auto
  with assms(1) show ?thesis by (simp add: distinct_card)
qed

lemma is_tree_size: "is_tree h t \<Longrightarrow> length (addrs t) \<le> length h"
  unfolding is_tree_def by (intro addrs_bound) auto

lemma is_tree_depth: "is_tree h t \<Longrightarrow> depth t \<le> length h"
  using depth_le_addrs [of t] is_tree_size [of h t] by simp

lemma is_tree_child:
  assumes "is_tree h (AT a ts)" "t \<in> set ts"
  shows "is_tree h t"
proof -
  have "distinct (concat (map addrs ts))" using assms(1) by (simp add: is_tree_def)
  then have "distinct (addrs t)"
    using distinct_concat_elem [of "map addrs ts" "addrs t"] assms(2) by simp
  moreover have "set (addrs t) \<subseteq> set (addrs (AT a ts))" using assms(2) by auto
  ultimately show ?thesis using assms by (auto simp: is_tree_def)
qed

lemma siblings_chain: "chain h p as \<Longrightarrow> length as \<le> k \<Longrightarrow> siblings k h p = Some as"
proof (induction k arbitrary: p as)
  case 0
  then show ?case by simp
next
  case (Suc k)
  then show ?case by (cases as) auto
qed

lemma ChildNodes_tree:
  assumes "is_tree h (AT a ts)"
  shows "ChildNodes h a = Some (map at_addr ts)"
proof -
  have "length ts \<le> length (concat (map addrs ts))"
  proof (induction ts)
    case Nil
    then show ?case by simp
  next
    case (Cons t ts)
    have "Suc 0 \<le> length (addrs t)" by (cases t) simp
    with Cons show ?case by simp
  qed
  moreover have "length (addrs (AT a ts)) \<le> length h" using assms by (rule is_tree_size)
  ultimately have "length (map at_addr ts) \<le> length h" by simp
  moreover have "chain h (FirstChild (h ! a)) (map at_addr ts)"
    using assms by (simp add: is_tree_def)
  ultimately show ?thesis unfolding ChildNodes_def by (intro siblings_chain)
qed

lemma InnerData_array_total:
  "\<forall>c \<in> set cs. \<exists>v. f c = Some v \<Longrightarrow> \<exists>ys. InnerData_array f h cs arr = Some (VSlice ys)"
proof (induction cs arbitrary: arr)
  case Nil
  then show ?case by simp
next
  case (Cons c cs)
  then obtain v where "f c = Some v" by auto
  with Cons show ?case by simp
qed

lemma InnerData_object_total:
  "\<forall>c \<in> set cs. \<exists>v. f c = Some v \<Longrightarrow> \<exists>m. InnerData_object f h cs obj = Some (VMap m)"
proof (induction cs arbitrary: obj)
  case Nil
  then show ?case by simp
next
  case (Cons c cs)
  then obtain v where "f c = Some v" by auto
  with Cons show ?case by simp
qed

text \<open>The value \<^verbatim>\<open>InnerData\<close> reads at a node that is neither an array nor an object.\<close>

definition payload :: "heap \<Rightarrow> atree \<Rightarrow> gvalue" where
  "payload h t = (case kids t of [] \<Rightarrow> idata (h ! at_addr t) | c # _ \<Rightarrow> idata (h ! at_addr c))"

lemma InnerData_d_tree:
  "is_tree h t \<Longrightarrow> depth t \<le> k \<Longrightarrow>
   \<exists>d. InnerData_d k h (at_addr t) = Some d \<and>
       (if contentType (h ! at_addr t) = arrayType then \<exists>ys. d = VSlice ys
        else if contentType (h ! at_addr t) = objectType then \<exists>m. d = VMap m
        else d = payload h t)"
proof (induction t arbitrary: k)
  case (AT a ts)
  from AT.prems(2) obtain k' where k: "k = Suc k'" by (cases k) auto
  have cn: "ChildNodes h a = Some (map at_addr ts)" using AT.prems(1) by (rule ChildNodes_tree)
  have ch: "\<forall>c \<in> set (map at_addr ts). \<exists>v. InnerData_d k' h c = Some v"
  proof
    fix c assume "c \<in> set (map at_addr ts)"
    then obtain t where t: "t \<in> set ts" "c = at_addr t" by auto
    have "is_tree h t" using AT.prems(1) t(1) by (rule is_tree_child)
    moreover have "depth t \<le> k'" using depth_child [OF t(1), of a] AT.prems(2) k by simp
    ultimately show "\<exists>v. InnerData_d k' h c = Some v" using AT.IH [OF t(1)] t(2) by blast
  qed
  show ?case
  proof (cases "contentType (h ! a) = arrayType")
    case True
    with InnerData_array_total [OF ch, of h "[]"] cn k show ?thesis by auto
  next
    case False
    show ?thesis
    proof (cases "contentType (h ! a) = objectType")
      case True
      with InnerData_object_total [OF ch, of h "[]"] cn k False show ?thesis by auto
    next
      case notobj: False
      with False cn k show ?thesis by (cases ts) (auto simp: payload_def)
    qed
  qed
qed

lemma InnerData_tree:
  assumes "is_tree h t"
  shows "\<exists>d. InnerData h (at_addr t) = Some d \<and>
       (if contentType (h ! at_addr t) = arrayType then \<exists>ys. d = VSlice ys
        else if contentType (h ! at_addr t) = objectType then \<exists>m. d = VMap m
        else d = payload h t)"
  unfolding InnerData_def using assms is_tree_depth [OF assms] by (rule InnerData_d_tree)


section \<open>What the projection returns\<close>

text \<open>
  The values \<^verbatim>\<open>JSON\<close> returns without a panic: no \<^verbatim>\<open>float32\<close> (its payload is stored
  as a \<^verbatim>\<open>float64\<close> under the tag \<^verbatim>\<open>float32\<close>, and the type assertion of \<^verbatim>\<open>JSON\<close> fails),
  and no map with two entries for a key.
\<close>

fun projectable :: "gvalue \<Rightarrow> bool" where
  "projectable (VFloat32 f) = False"
| "projectable (VSlice xs) = list_all projectable xs"
| "projectable (VMap m) = (distinct (map fst m) \<and> list_all (\<lambda>p. projectable (snd p)) m)"
| "projectable _ = True"

text \<open>
  The expected result of \<^verbatim>\<open>JSON(sk)\<close> on a tree that holds the value \<open>x\<close>: the children
  that are excluded (when \<open>sk\<close> is set) are left out, at every depth.
\<close>

function project :: "bool \<Rightarrow> heap \<Rightarrow> atree \<Rightarrow> gvalue \<Rightarrow> gvalue" where
  "project sk h (AT a ts) x =
     (case x of
        VSlice xs \<Rightarrow>
          VSlice (map (\<lambda>(t, it). project sk h t (snd it))
            (filter (\<lambda>(t, it). \<not> (sk \<and> skipped (h ! at_addr t))) (zip ts (items x))))
      | VMap m \<Rightarrow>
          VMap (map (\<lambda>(t, it). (fst it, project sk h t (snd it)))
            (filter (\<lambda>(t, it). \<not> (sk \<and> skipped (h ! at_addr t))) (zip ts (items x))))
      | _ \<Rightarrow> x)"
  by pat_completeness auto
termination
proof (relation "measure (\<lambda>(sk, h, t, x). size x)")
  show "wf (measure (\<lambda>(sk, h, t, x). size x))" by simp
next
  fix sk :: bool and h :: heap and a ts x xs and z :: "atree \<times> string \<times> gvalue" and t it
  assume "z \<in> set (filter (\<lambda>(t, it). \<not> (sk \<and> skipped (h ! at_addr t))) (zip ts (items x)))"
    and "(t, it) = z"
  then have "it \<in> set (items x)" by (auto dest: set_zip_rightD)
  then have "snd it \<in> snd ` set (items x)" by simp
  then show "((sk, h, t, snd it), (sk, h, AT a ts, x)) \<in> measure (\<lambda>(sk, h, t, x). size x)"
    using size_items by simp
next
  fix sk :: bool and h :: heap and a ts x xs and z :: "atree \<times> string \<times> gvalue" and t it
  assume "z \<in> set (filter (\<lambda>(t, it). \<not> (sk \<and> skipped (h ! at_addr t))) (zip ts (items x)))"
    and "(t, it) = z"
  then have "it \<in> set (items x)" by (auto dest: set_zip_rightD)
  then have "snd it \<in> snd ` set (items x)" by simp
  then show "((sk, h, t, snd it), (sk, h, AT a ts, x)) \<in> measure (\<lambda>(sk, h, t, x). size x)"
    using size_items by simp
qed

declare project.simps [simp del]


abbreviation retained :: "bool \<Rightarrow> heap \<Rightarrow> atree \<times> 'a \<Rightarrow> bool" where
  "retained sk h \<equiv> (\<lambda>(t, it). \<not> (sk \<and> skipped (h ! at_addr t)))"

lemma JSON_array_zip:
  assumes "length ts = length its"
    and "\<forall>(t, it) \<in> set (zip ts its). \<not> (sk \<and> skipped (h ! at_addr t)) \<longrightarrow>
           f (at_addr t) = Some (Inr (F t it))"
  shows "JSON_array f h sk (map at_addr ts) arr =
           Some (Inr (VSlice (arr @ map (\<lambda>(t, it). F t it) (filter (retained sk h) (zip ts its)))))"
  using assms
proof (induction ts its arbitrary: arr rule: list_induct2)
  case Nil
  then show ?case by simp
next
  case (Cons t ts it its)
  then show ?case by auto
qed

lemma map_assign_fresh: "key \<notin> fst ` set obj \<Longrightarrow> map_assign obj key v = obj @ [(key, v)]"
  by (induction obj) auto

lemma JSON_object_zip:
  assumes "length ts = length its"
    and "\<forall>(t, it) \<in> set (zip ts its). Data (h ! at_addr t) = fst it \<and>
           (\<not> (sk \<and> skipped (h ! at_addr t)) \<longrightarrow> f (at_addr t) = Some (Inr (F t it)))"
    and "distinct (map fst its)" "fst ` set obj \<inter> fst ` set its = {}"
  shows "JSON_object f h sk (map at_addr ts) obj =
           Some (Inr (VMap (obj @ map (\<lambda>(t, it). (fst it, F t it)) (filter (retained sk h) (zip ts its)))))"
  using assms
proof (induction ts its arbitrary: obj rule: list_induct2)
  case Nil
  then show ?case by simp
next
  case (Cons t ts it its)
  have d: "Data (h ! at_addr t) = fst it" using Cons.prems(1) by simp
  have rest: "\<forall>(t, it) \<in> set (zip ts its). Data (h ! at_addr t) = fst it \<and>
           (\<not> (sk \<and> skipped (h ! at_addr t)) \<longrightarrow> f (at_addr t) = Some (Inr (F t it)))"
    using Cons.prems(1) by simp
  have di: "distinct (map fst its)" using Cons.prems(2) by simp
  show ?case
  proof (cases "sk \<and> skipped (h ! at_addr t)")
    case True
    have "fst ` set obj \<inter> fst ` set its = {}" using Cons.prems(3) by auto
    from Cons.IH [OF rest di this] True show ?thesis by simp
  next
    case False
    then have r: "f (at_addr t) = Some (Inr (F t it))" using Cons.prems(1) by simp
    have fresh: "fst it \<notin> fst ` set obj" using Cons.prems(3) by auto
    have "fst ` set (obj @ [(fst it, F t it)]) \<inter> fst ` set its = {}"
      using Cons.prems(2,3) by auto
    moreover have nf: "(sk \<and> skipped (h ! at_addr t)) = False" using False by simp
    ultimately show ?thesis using Cons.IH [OF rest di] r d fresh
      by (simp add: map_assign_fresh nf del: de_Morgan_conj)
  qed
qed

lemma projectable_items:
  assumes "projectable x" "it \<in> set (items x)"
  shows "projectable (snd it)"
proof (cases x)
  case (VSlice xs)
  with assms show ?thesis by (auto simp: list_all_iff)
next
  case (VMap m)
  with assms obtain key where key: "key \<in> set (map fst m)" "it = (key, map_index m key)" by auto
  then obtain v where "map_of m key = Some v"
    by (cases "map_of m key") (auto simp: map_of_eq_None_iff)
  moreover from this have "(key, v) \<in> set m" by (rule map_of_SomeD)
  ultimately show ?thesis using assms(1) VMap key(2)
    by (auto simp: list_all_iff map_index_def)
qed (use assms in auto)

lemma distinct_items_keys: "projectable (VMap m) \<Longrightarrow> distinct (map fst (items (VMap m)))"
  by (simp add: comp_def)

lemma InnerText_leaf:
  assumes "is_tree h (AT a [AT c []])" "Type (h ! a) \<noteq> TextNode" "Type (h ! c) = TextNode"
  shows "InnerText h a = Some (Data (h ! c))"
proof -
  have "length (addrs (AT a [AT c []])) \<le> length h" using assms(1) by (rule is_tree_size)
  then obtain k where k: "length h = Suc (Suc k)"
    by (cases "length h"; cases "length h - 1") auto
  have "ChildNodes h a = Some [c]" using ChildNodes_tree [OF assms(1)] by simp
  with assms(2,3) show ?thesis by (simp add: InnerText_def k)
qed


lemma JSON_d_leaf:
  assumes "leaf lib x = Some (ct, s, v)" "projectable x" "contentType (h ! n) = ct"
    and "InnerData h n = Some v" "InnerText h n = Some s"
  shows "JSON_d (Suc k) h n sk = Some (Inr x)"
proof (cases x)
  case (VBool b)
  show ?thesis
  proof (cases b)
    case True
    with VBool assms have "contentType (h ! n) = boolType" "InnerData h n = Some (VBool True)"
      "InnerText h n = Some ''true''"
      by (auto simp: FormatBool_def)
    then show ?thesis using VBool True by (simp add: ParseBool_def)
  next
    case False
    with VBool assms have "contentType (h ! n) = boolType" "InnerData h n = Some (VBool False)"
      "InnerText h n = Some ''false''"
      by (auto simp: FormatBool_def)
    then show ?thesis using VBool False by (simp add: ParseBool_def)
  qed
qed (use assms in \<open>auto simp add: assert_type_def\<close>)

lemma leaf_not_container:
  "leaf lib x = Some (ct, s, v) \<Longrightarrow> ct \<noteq> arrayType \<and> ct \<noteq> objectType"
  by (cases x) auto

lemma project_leaf: "leaf lib x = Some r \<Longrightarrow> project sk h t x = x"
  by (cases t; cases x) (auto simp: project.simps)

lemma JSON_d_project:
  "is_tree h t \<Longrightarrow> holds lib h lvl t x \<Longrightarrow> projectable x \<Longrightarrow> Type (h ! at_addr t) \<noteq> TextNode \<Longrightarrow>
   depth t \<le> k \<Longrightarrow> JSON_d k h (at_addr t) sk = Some (Inr (project sk h t x))"
proof (induction x arbitrary: t lvl k rule: measure_induct_rule [where f = size])
  case (less x)
  obtain a ts where t: "t = AT a ts" by (cases t)
  from less.prems(5) t obtain k' where k: "k = Suc k'" by (cases k) auto
  have tr: "is_tree h (AT a ts)" using less.prems(1) t by simp
  from InnerData_tree [OF tr]
  obtain d where d: "InnerData h a = Some d"
    "if contentType (h ! a) = arrayType then \<exists>ys. d = VSlice ys
     else if contentType (h ! a) = objectType then \<exists>m. d = VMap m
     else d = payload h (AT a ts)"
    by auto
  show ?case
  proof (cases "leaf lib x")
    case (Some r)
    obtain ct s v where r: "r = (ct, s, v)" by (cases r)
    from less.prems(2) Some r t obtain c where c: "contentType (h ! a) = ct" "ts = [AT c []]"
      "Type (h ! c) = TextNode" "Data (h ! c) = s" "idata (h ! c) = v"
      by (auto simp: holds_leaf)
    have nc: "ct \<noteq> arrayType \<and> ct \<noteq> objectType" using Some r leaf_not_container by blast
    have dv: "d = v" using d(2) c nc by (simp add: payload_def)
    have "InnerText h a = Some (Data (h ! c))"
      using tr less.prems(4) c t by (intro InnerText_leaf) auto
    with JSON_d_leaf [of lib x ct s v h a k' sk] Some r less.prems(3) c d(1) dv
    have "JSON_d (Suc k') h a sk = Some (Inr x)" by simp
    then show ?thesis using t k project_leaf [OF Some] by simp
  next
    case None
    from less.prems(2) None t
    have ct: "contentType (h ! a) = container_tag x"
      and ok: "list_all2 (child_ok lib h lvl) ts (items x)"
      by (simp_all add: holds_container)
    have len: "length ts = length (items x)" using ok by (rule list_all2_lengthD)
    have cn: "ChildNodes h a = Some (map at_addr ts)" using tr by (rule ChildNodes_tree)
    have kidsok: "\<forall>(u, it) \<in> set (zip ts (items x)). Data (h ! at_addr u) = fst it \<and>
        (\<not> (sk \<and> skipped (h ! at_addr u)) \<longrightarrow>
           JSON_d k' h (at_addr u) sk = Some (Inr (project sk h u (snd it))))"
    proof (intro ballI, clarify)
      fix u key y assume z: "(u, key, y) \<in> set (zip ts (items x))"
      then have u: "u \<in> set ts" and it: "(key, y) \<in> set (items x)"
        by (auto dest: set_zip_leftD set_zip_rightD)
      have co: "child_ok lib h lvl u (key, y)"
        using ok z by (auto simp: list_all2_iff)
      have "size y < size x" using it size_items [of y x] by force
      moreover have "is_tree h u" using tr u by (rule is_tree_child)
      moreover have "holds lib h (lvl + 1) u y" using co by (simp add: child_ok_def)
      moreover have "projectable y" using projectable_items [OF less.prems(3) it] by simp
      moreover have "Type (h ! at_addr u) \<noteq> TextNode" using co by (simp add: child_ok_def)
      moreover have "depth u \<le> k'" using depth_child [OF u, of a] less.prems(5) t k by simp
      ultimately have "JSON_d k' h (at_addr u) sk = Some (Inr (project sk h u y))"
        by (rule less.IH)
      moreover have "Data (h ! at_addr u) = key" using co by (simp add: child_ok_def)
      ultimately show "Data (h ! at_addr u) = fst (key, y) \<and>
        (\<not> (sk \<and> skipped (h ! at_addr u)) \<longrightarrow>
           JSON_d k' h (at_addr u) sk = Some (Inr (project sk h u (snd (key, y)))))"
        by simp
    qed
    show ?thesis
    proof (cases x)
      case (VSlice xs)
      with ct d(2) have dn: "d \<noteq> VNil" by auto
      have kids': "\<forall>(u, it) \<in> set (zip ts (items x)). \<not> (sk \<and> skipped (h ! at_addr u)) \<longrightarrow>
          JSON_d k' h (at_addr u) sk = Some (Inr (project sk h u (snd it)))"
        using kidsok by auto
      from JSON_array_zip [OF len kids', of "[]"] VSlice ct d(1) dn cn t k
      show ?thesis by (simp add: project.simps)
    next
      case (VMap m)
      with ct d(2) have dn: "d \<noteq> VNil" by auto
      have di: "distinct (map fst (items x))"
        using less.prems(3) VMap distinct_items_keys by simp
      from JSON_object_zip [OF len kidsok di, of "[]"] VMap ct d(1) dn cn t k
      show ?thesis by (simp add: project.simps)
    qed (use None in auto)
  qed
qed


section \<open>The tree of a parsed document\<close>

lemma parse_tree:
  assumes "Unmarshal lib b = Inr v"
  shows "\<exists>h ts. parse lib b = Inr (h, 0) \<and> is_tree h (AT 0 ts) \<and> holds lib h 1 (AT 0 ts) v \<and>
           Type (h ! 0) = DocumentNode \<and> Parent (h ! 0) = None \<and> level (h ! 0) = 0 \<and>
           addrs (AT 0 ts) = [0..<length h] \<and> (\<forall>a < length h. \<not> skipped (h ! a))"
proof -
  define h1 where "h1 = (case v of
      VSlice xs \<Rightarrow> upd [zeroNode\<lparr>Type := DocumentNode\<rparr>] 0 (\<lambda>n. n\<lparr>contentType := arrayType\<rparr>)
    | VMap m \<Rightarrow> upd [zeroNode\<lparr>Type := DocumentNode\<rparr>] 0 (\<lambda>n. n\<lparr>contentType := objectType\<rparr>)
    | _ \<Rightarrow> [zeroNode\<lparr>Type := DocumentNode\<rparr>])"
  have h1: "length h1 = 1" "FirstChild (h1 ! 0) = None" "level (h1 ! 0) = 0"
    "Type (h1 ! 0) = DocumentNode" "Parent (h1 ! 0) = None" "\<not> skipped (h1 ! 0)"
    by (cases v; simp add: h1_def upd_def zeroNode_def)+
  have "0 < length h1" "level (h1 ! 0) < 1" using h1 by simp_all
  from parseValue_built [OF this(1) h1(2) this(2), of lib v]
  obtain h ts where run: "parseValue lib v 0 1 h1 = Inr h" and bl: "built lib v 0 1 h1 h ts"
    by blast
  have p: "parse lib b = Inr (h, 0)"
    using assms run by (simp add: parse_def alloc_def h1_def)
  from bl have len: "length h1 \<le> length h" and kp: "keeps (h ! 0) (h1 ! 0)"
    and sh: "shaped h (AT 0 ts)" and ad: "concat (map addrs ts) = [length h1..<length h]"
    and ho: "holds lib h 1 (AT 0 ts) v"
    and ns: "\<forall>a. length h1 \<le> a \<and> a < length h \<longrightarrow> \<not> skipped (h ! a)"
    by (simp_all add: built_def)
  have "0 < length h" using len h1(1) by (cases h) simp_all
  then have "[0..<length h] = 0 # [Suc 0..<length h]" by (rule upt_conv_Cons)
  then have "0 # [Suc 0..<length h] = [0..<length h]" by simp
  then have ad0: "addrs (AT 0 ts) = [0..<length h]"
    using ad h1(1) by simp
  then have "is_tree h (AT 0 ts)" using sh by (simp add: is_tree_def)
  moreover have "\<forall>a < length h. \<not> skipped (h ! a)"
  proof (intro allI impI)
    fix a assume "a < length h"
    show "\<not> skipped (h ! a)"
    proof (cases "a = 0")
      case True
      then show ?thesis using kp h1(6) by (simp add: keeps_def)
    next
      case False
      then show ?thesis using ns h1(1) \<open>a < length h\<close> by simp
    qed
  qed
  ultimately show ?thesis using p ho kp h1 ad0 by (auto simp: keeps_def)
qed


lemma json_decoded_projectable: "json_decoded x \<Longrightarrow> projectable x"
proof (induction x rule: measure_induct_rule [where f = size])
  case (less x)
  show ?case
  proof (cases x)
    case (VSlice xs)
    have "\<And>y. y \<in> set xs \<Longrightarrow> projectable y"
    proof -
      fix y assume y: "y \<in> set xs"
      then have "y \<in> snd ` set (items x)" using VSlice by force
      then have "size y < size x" by (rule size_items)
      moreover have "json_decoded y" using less.prems VSlice y by (simp add: list_all_iff)
      ultimately show "projectable y" by (rule less.IH)
    qed
    with VSlice show ?thesis by (simp add: list_all_iff)
  next
    case (VMap m)
    have "\<And>p. p \<in> set m \<Longrightarrow> projectable (snd p)"
    proof -
      fix p assume p: "p \<in> set m"
      have "size (snd p) < Suc (size_list (size_prod (\<lambda>_. 0) size) m)"
        using p by (induction m) auto
      then have "size (snd p) < size x" using VMap by simp
      moreover have "json_decoded (snd p)" using less.prems VMap p by (simp add: list_all_iff)
      ultimately show "projectable (snd p)" by (rule less.IH)
    qed
    with VMap less.prems show ?thesis by (simp add: list_all_iff)
  qed (use less.prems in auto)
qed


section \<open>The round trip\<close>

lemma map_zip_right:
  assumes "length ts = length its"
    and "\<forall>(t, it) \<in> set (zip ts its). G t it = K it"
  shows "map (\<lambda>(t, it). G t it) (zip ts its) = map K its"
  using assms by (induction ts its rule: list_induct2) auto

lemma distinct_keys_sort_key:
  "distinct (map fst (m :: (string \<times> gvalue) list)) \<Longrightarrow> distinct (map fst (sort_key fst m))"
  by (induction m) (auto simp: distinct_insort_key)

lemma keys_sort_key:
  assumes "distinct (map fst (m :: (string \<times> gvalue) list))"
  shows "map fst (sort_key fst m) = sort (map fst m)"
proof (rule sorted_distinct_set_unique)
  show "sorted (map fst (sort_key fst m))" by simp
  show "distinct (map fst (sort_key fst m))" using assms by (rule distinct_keys_sort_key)
  show "sorted (sort (map fst m))" by simp
  show "distinct (sort (map fst m))" using assms by simp
  show "set (map fst (sort_key fst m)) = set (sort (map fst m))" by simp
qed

lemma sort_key_fst_distinct:
  assumes "distinct (map fst (m :: (string \<times> gvalue) list))"
  shows "sort_key fst m = map (\<lambda>key. (key, map_index m key)) (sort (map fst m))"
proof -
  have "map (\<lambda>p. (fst p, map_index m (fst p))) (sort_key fst m) = sort_key fst m"
  proof (rule map_idI)
    fix p assume "p \<in> set (sort_key fst m)"
    then have "(fst p, snd p) \<in> set m" by simp
    with assms have "map_of m (fst p) = Some (snd p)" by simp
    then show "(fst p, map_index m (fst p)) = p" by (simp add: map_index_def)
  qed
  then have "sort_key fst m = map (\<lambda>key. (key, map_index m key)) (map fst (sort_key fst m))"
    by (simp add: comp_def)
  with keys_sort_key [OF assms] show ?thesis by simp
qed

lemma map_index_map:
  "map_index (map (\<lambda>p. (fst p, f (snd p))) m) key =
     (case map_of m key of None \<Rightarrow> VNil | Some v \<Rightarrow> f v)"
  by (induction m) (auto simp: map_index_def)

lemma canon_map_sorted:
  assumes "distinct (map fst m)"
  shows "sort_key fst (map (\<lambda>p. (fst p, canon (snd p))) m) =
           map (\<lambda>it. (fst it, canon (snd it))) (items (VMap m))"
proof -
  let ?m' = "map (\<lambda>p. (fst p, canon (snd p))) m"
  have k: "map fst ?m' = map fst m" by (simp add: comp_def)
  have "distinct (map fst ?m')" unfolding k using assms .
  then have "sort_key fst ?m' = map (\<lambda>key. (key, map_index ?m' key)) (sort (map fst ?m'))"
    by (rule sort_key_fst_distinct)
  also have "\<dots> = map (\<lambda>key. (key, map_index ?m' key)) (sort (map fst m))" by (simp only: k)
  also have "\<dots> = map (\<lambda>key. (key, canon (map_index m key))) (sort (map fst m))"
  proof (rule map_cong [OF refl])
    fix key assume "key \<in> set (sort (map fst m))"
    then have "key \<in> fst ` set m" by simp
    then obtain v where "map_of m key = Some v"
      by (cases "map_of m key") (auto simp: map_of_eq_None_iff)
    then have "map_index ?m' key = canon v" "map_index m key = v"
      using map_index_map [of canon m key] by (simp_all add: map_index_def)
    then show "(key, map_index ?m' key) = (key, canon (map_index m key))" by simp
  qed
  finally show ?thesis by (simp add: comp_def)
qed

lemma project_False_canon:
  "holds lib h lvl t x \<Longrightarrow> projectable x \<Longrightarrow> project False h t x = canon x"
proof (induction x arbitrary: t lvl rule: measure_induct_rule [where f = size])
  case (less x)
  obtain a ts where t: "t = AT a ts" by (cases t)
  show ?case
  proof (cases "leaf lib x")
    case (Some r)
    then have "canon x = x" by (cases x) auto
    with project_leaf [OF Some] show ?thesis by simp
  next
    case None
    from less.prems(1) None t have ok: "list_all2 (child_ok lib h lvl) ts (items x)"
      by (simp add: holds_container)
    have len: "length ts = length (items x)" using ok by (rule list_all2_lengthD)
    have kids: "\<forall>(u, it) \<in> set (zip ts (items x)). project False h u (snd it) = canon (snd it)"
    proof (intro ballI, clarify)
      fix u key y assume z: "(u, key, y) \<in> set (zip ts (items x))"
      then have it: "(key, y) \<in> set (items x)" by (auto dest: set_zip_rightD)
      have co: "child_ok lib h lvl u (key, y)" using ok z by (auto simp: list_all2_iff)
      have "size y < size x" using it size_items [of y x] by force
      moreover have "holds lib h (lvl + 1) u y" using co by (simp add: child_ok_def)
      moreover have "projectable y" using projectable_items [OF less.prems(2) it] by simp
      ultimately have "project False h u y = canon y" by (rule less.IH)
      then show "project False h u (snd (key, y)) = canon (snd (key, y))" by simp
    qed
    show ?thesis
    proof (cases x)
      case (VSlice xs)
      from map_zip_right [OF len kids]
      have "map (\<lambda>(u, it). project False h u (snd it)) (zip ts (items x)) = map (\<lambda>it. canon (snd it)) (items x)" .
      with VSlice t show ?thesis by (simp add: project.simps comp_def)
    next
      case (VMap m)
      have "\<forall>(u, it) \<in> set (zip ts (items x)). (fst it, project False h u (snd it)) = (fst it, canon (snd it))"
        using kids by auto
      from map_zip_right [OF len this]
      have "map (\<lambda>(u, it). (fst it, project False h u (snd it))) (zip ts (items x)) =
              map (\<lambda>it. (fst it, canon (snd it))) (items x)" .
      moreover have "distinct (map fst m)" using less.prems(2) VMap by simp
      ultimately show ?thesis using VMap t canon_map_sorted [of m]
        by (simp add: project.simps)
    qed (use None in auto)
  qed
qed

lemma canon_idem: "canon (canon x) = canon x"
proof (induction x rule: measure_induct_rule [where f = size])
  case (less x)
  show ?case
  proof (cases x)
    case (VSlice xs)
    have "\<And>y. y \<in> set xs \<Longrightarrow> canon (canon y) = canon y"
    proof -
      fix y assume "y \<in> set xs"
      then have "y \<in> snd ` set (items x)" using VSlice by force
      then have "size y < size x" by (rule size_items)
      then show "canon (canon y) = canon y" by (rule less.IH)
    qed
    with VSlice show ?thesis by simp
  next
    case (VMap m)
    let ?g = "\<lambda>p :: string \<times> gvalue. (fst p, canon (snd p))"
    let ?L = "sort_key fst (map ?g m)"
    have "map ?g ?L = ?L"
    proof (rule map_idI)
      fix p assume "p \<in> set ?L"
      then obtain q where q: "q \<in> set m" "p = ?g q" by auto
      have "size (snd q) < Suc (size_list (size_prod (\<lambda>_. 0) size) m)"
        using q(1) by (induction m) auto
      then have "size (snd q) < size x" using VMap by simp
      then have "canon (canon (snd q)) = canon (snd q)" by (rule less.IH)
      with q(2) show "?g p = p" by simp
    qed
    moreover have "sort_key fst ?L = ?L" by (rule sort_key_id_if_sorted) simp
    ultimately show ?thesis using VMap by simp
  qed auto
qed


lemma parse_JSON:
  assumes "Unmarshal lib b = Inr v" "projectable v"
  shows "\<exists>h. parse lib b = Inr (h, 0) \<and> JSON h 0 False = Some (Inr (canon v))"
proof -
  from parse_tree [OF assms(1)]
  obtain h ts where p: "parse lib b = Inr (h, 0)" and tr: "is_tree h (AT 0 ts)"
    and ho: "holds lib h 1 (AT 0 ts) v" and ty: "Type (h ! 0) = DocumentNode"
    by blast
  have "JSON_d (length h) h (at_addr (AT 0 ts)) False = Some (Inr (project False h (AT 0 ts) v))"
    using tr ho assms(2) _ is_tree_depth [OF tr] by (rule JSON_d_project) (simp add: ty)
  then have "JSON h 0 False = Some (Inr (canon v))"
    using project_False_canon [OF ho assms(2)] by (simp add: JSON_def)
  with p show ?thesis by blast
qed

text \<open>
  C1. When the decoder returns the value \<open>v\<close> for the text, \<^verbatim>\<open>Parse\<close> succeeds and
  \<^verbatim>\<open>JSON(false)\<close> on the document node returns a value that is JSON-equal to \<open>v\<close>: it is
  \<open>v\<close> with the entries of every map in key order.
\<close>

theorem parse_JSON_roundtrip:
  assumes "Unmarshal lib b = Inr v" "json_decoded v"
  shows "\<exists>h doc w. parse lib b = Inr (h, doc) \<and> JSON h doc False = Some (Inr w) \<and>
           w = canon v \<and> json_equal w v"
proof -
  from parse_JSON [OF assms(1) json_decoded_projectable [OF assms(2)]]
  obtain h where "parse lib b = Inr (h, 0)" "JSON h 0 False = Some (Inr (canon v))" by blast
  then show ?thesis by (auto simp: json_equal_def canon_idem)
qed

theorem parse_JSON_roundtrip_witness:
  "Unmarshal (lib_of assets_value small_float) [] = Inr assets_value \<and>
   json_decoded assets_value \<and>
   (\<exists>h doc w. parse (lib_of assets_value small_float) [] = Inr (h, doc) \<and>
      JSON h doc False = Some (Inr w) \<and> w = canon assets_value \<and> json_equal w assets_value)"
proof -
  have a: "Unmarshal (lib_of assets_value small_float) [] = Inr assets_value"
    by (simp add: lib_of_def)
  have b: "json_decoded assets_value" by code_simp
  from parse_JSON_roundtrip [OF a b] a b show ?thesis by blast
qed


section \<open>Replacing a scalar\<close>

lemma siblings_links:
  "\<forall>a. NextSibling (h' ! a) = NextSibling (h ! a) \<Longrightarrow> siblings k h' q = siblings k h q"
proof (induction k arbitrary: q)
  case 0
  then show ?case by (cases q) auto
next
  case (Suc k)
  then show ?case by (cases q) auto
qed

lemma types_scalar: "types name = Some ct \<Longrightarrow> ct \<noteq> arrayType \<and> ct \<noteq> objectType"
  by (auto simp: types_def split: if_splits)

lemma SetInnerData_text_result:
  assumes "Parent (h ! n) = Some p" "n < length h" "p < length h" "p \<noteq> n"
    and "v = VNil \<or> types (typeName v) = Some ct"
  shows "\<exists>h'. SetInnerData_text lib h n v = Inr h' \<and> length h' = length h \<and>
           h' ! n = (h ! n)\<lparr>idata := v, Data := (if v = VNil then Data (h ! n) else Sprintf_v lib v)\<rparr> \<and>
           h' ! p = (h ! p)\<lparr>contentType := (if v = VNil then nullType else ct)\<rparr> \<and>
           (\<forall>a. a \<noteq> n \<longrightarrow> a \<noteq> p \<longrightarrow> h' ! a = h ! a)"
proof (cases "v = VNil")
  case True
  with assms show ?thesis
    by (simp add: SetInnerData_text_def upd_def Let_def nth_list_update)
next
  case False
  with assms(5) have "types (typeName v) = Some ct" by simp
  with False assms(1-4) show ?thesis
    by (simp add: SetInnerData_text_def upd_def Let_def nth_list_update)
qed

text \<open>
  What \<^verbatim>\<open>SetInnerData\<close> does keep. Let \<open>n\<close> be a text leaf with parent \<open>p\<close>, and \<open>v\<close> nil
  or a value whose type name is in the table \<^verbatim>\<open>types\<close>. \<^verbatim>\<open>SetInnerData(v)\<close>, called on the
  leaf or on its parent element when the leaf is its only child, succeeds; afterwards
  \<^verbatim>\<open>InnerData\<close> of the leaf and of the parent return \<open>v\<close>, the tag of the parent is the
  tag of \<open>v\<close>'s type (\<^verbatim>\<open>null\<close> for nil), the text of the leaf is the rendering of \<open>v\<close>
  when \<open>v\<close> is not nil, and no other node has changed.
\<close>

theorem SetInnerData_leaf:
  assumes "Type (h ! n) = TextNode" "FirstChild (h ! n) = None"
    and "contentType (h ! n) \<noteq> arrayType" "contentType (h ! n) \<noteq> objectType"
    and "Parent (h ! n) = Some p" "n < length h" "p < length h" "p \<noteq> n"
    and "ChildNodes h p = Some [n]"
    and "v = VNil \<or> types (typeName v) = Some ct"
    and "m = n \<or> (m = p \<and> Type (h ! p) = ElementNode)"
  shows "\<exists>h'. SetInnerData lib h m v = Some (Inr h') \<and>
           InnerData h' n = Some v \<and> InnerData h' p = Some v \<and>
           contentType (h' ! p) = (if v = VNil then nullType else ct) \<and>
           (v \<noteq> VNil \<longrightarrow> Data (h' ! n) = Sprintf_v lib v) \<and>
           length h' = length h \<and> (\<forall>a. a \<noteq> n \<longrightarrow> a \<noteq> p \<longrightarrow> h' ! a = h ! a)"
proof -
  from SetInnerData_text_result [OF assms(5-8,10), of lib]
  obtain h' where h': "SetInnerData_text lib h n v = Inr h'" "length h' = length h"
    "h' ! n = (h ! n)\<lparr>idata := v, Data := (if v = VNil then Data (h ! n) else Sprintf_v lib v)\<rparr>"
    "h' ! p = (h ! p)\<lparr>contentType := (if v = VNil then nullType else ct)\<rparr>"
    "\<forall>a. a \<noteq> n \<longrightarrow> a \<noteq> p \<longrightarrow> h' ! a = h ! a"
    by blast
  obtain k where k: "length h = Suc k" using assms(6) by (cases "length h") auto
  have run: "SetInnerData lib h m v = Some (Inr h')"
  proof (cases "m = n")
    case True
    with assms(1) h'(1) show ?thesis by (simp add: SetInnerData_def)
  next
    case False
    with assms(11) have m: "m = p" "Type (h ! p) = ElementNode" by auto
    have "SetInnerData_d k lib h n v = Some (Inr h')" using assms(1) h'(1) by simp
    with m assms(9) k show ?thesis by (simp add: SetInnerData_def)
  qed
  have nx: "\<forall>a. NextSibling (h' ! a) = NextSibling (h ! a)"
  proof
    fix a show "NextSibling (h' ! a) = NextSibling (h ! a)"
      using h'(3,4,5) by (cases "a = n"; cases "a = p") auto
  qed
  have cn: "ChildNodes h' n = Some []"
    using h'(3) assms(2) by (simp add: ChildNodes_def)
  have cp: "ChildNodes h' p = Some [n]"
    using assms(9) h'(2,4) siblings_links [OF nx] by (simp add: ChildNodes_def)
  have tn: "contentType (h' ! n) \<noteq> arrayType" "contentType (h' ! n) \<noteq> objectType"
    using h'(3) assms(3,4) by simp_all
  have tp: "contentType (h' ! p) \<noteq> arrayType" "contentType (h' ! p) \<noteq> objectType"
    using h'(4) assms(10) types_scalar [of "typeName v" ct] by auto
  have "InnerData h' n = Some v"
    using cn tn h'(2,3) k by (simp add: InnerData_def)
  moreover have "InnerData h' p = Some v"
    using cp tp h'(2,3) k by (simp add: InnerData_def)
  ultimately show ?thesis using run h' by auto
qed

text \<open>\<^verbatim>\<open>{"name":"John","id":1}\<close>: the number is replaced by the string \<^verbatim>\<open>100\<close>.\<close>

theorem SetInnerData_leaf_witness:
  "Type (john ! 2) = TextNode \<and> Parent (john ! 2) = Some 1 \<and> ChildNodes john 1 = Some [2] \<and>
   Type (john ! 1) = ElementNode \<and> types (typeName (VString ''100'')) = Some stringType \<and>
   (\<exists>h'. SetInnerData (lib_of VNil small_float) john 1 (VString ''100'') = Some (Inr h') \<and>
      InnerData h' 2 = Some (VString ''100'') \<and> InnerData h' 1 = Some (VString ''100'') \<and>
      contentType (h' ! 1) = stringType \<and> Data (h' ! 2) = ''100'')"
proof -
  have a: "Type (john ! 2) = TextNode" "FirstChild (john ! 2) = None"
    "contentType (john ! 2) \<noteq> arrayType" "contentType (john ! 2) \<noteq> objectType"
    "Parent (john ! 2) = Some 1" "2 < length john" "1 < length john" "(1::nat) \<noteq> 2"
    "ChildNodes john 1 = Some [2]"
    by code_simp+
  have b: "VString ''100'' = VNil \<or> types (typeName (VString ''100'')) = Some stringType"
    by code_simp
  have c: "(1::nat) = 2 \<or> (1 = (1::nat) \<and> Type (john ! 1) = ElementNode)" by code_simp
  from SetInnerData_leaf [OF a b c, of "lib_of VNil small_float"] a b c
  show ?thesis by auto
qed

text \<open>\<^verbatim>\<open>null\<close>: the tree \<^verbatim>\<open>Parse\<close> builds for it.\<close>

definition null_doc :: heap where
  "null_doc = fst (parsed (lib_of VNil small_float))"

text \<open>
  C5. The code breaks the claim for nil. On the tree of \<^verbatim>\<open>{"name":"John","id":1}\<close>,
  \<^verbatim>\<open>SetInnerData(nil)\<close> on the leaf of \<^verbatim>\<open>id\<close> sets the payload to nil and the tag of the
  element to \<^verbatim>\<open>null\<close>, but the leaf keeps the text \<^verbatim>\<open>1\<close>: \<^verbatim>\<open>n.Data\<close> is assigned in
  the other branch only. The text of the element is then still \<^verbatim>\<open>1\<close> while its value is
  nil, a state that no constructor builds: \<^verbatim>\<open>parseValue\<close> gives a null leaf the empty
  text.
\<close>

theorem SetInnerData_nil_keeps_text:
  "Type (john ! 2) = TextNode \<and> Parent (john ! 2) = Some 1 \<and> Data (john ! 2) = ''1'' \<and>
   (case SetInnerData (lib_of VNil small_float) john 2 VNil of
      Some (Inr h') \<Rightarrow>
        idata (h' ! 2) = VNil \<and> InnerData h' 1 = Some VNil \<and> contentType (h' ! 1) = nullType \<and>
        Data (h' ! 2) = ''1'' \<and> InnerText h' 1 = Some ''1''
    | _ \<Rightarrow> False) \<and>
   contentType (null_doc ! 0) = nullType \<and> Type (null_doc ! 1) = TextNode \<and>
   idata (null_doc ! 1) = VNil \<and> Data (null_doc ! 1) = []"
  by code_simp


section \<open>The nodes of a parsed document\<close>

text \<open>\<open>marked h0 h\<close>: the heap \<open>h\<close> is \<open>h0\<close> after any number of calls of \<^verbatim>\<open>SetSkipped\<close>.\<close>

definition marked :: "heap \<Rightarrow> heap \<Rightarrow> bool" where
  "marked h0 h =
     (length h = length h0 \<and> (\<forall>a < length h0. h ! a = (h0 ! a)\<lparr>skipped := skipped (h ! a)\<rparr>))"

lemma marked_refl: "marked h h"
  by (simp add: marked_def)


lemma marked_field:
  assumes "marked h0 h" "a < length h0"
  shows "FirstChild (h ! a) = FirstChild (h0 ! a)" "NextSibling (h ! a) = NextSibling (h0 ! a)"
    "Parent (h ! a) = Parent (h0 ! a)" "same_content (h ! a) (h0 ! a)"
    "contentType (h ! a) = contentType (h0 ! a)" "Type (h ! a) = Type (h0 ! a)"
    "Data (h ! a) = Data (h0 ! a)"
proof -
  have e: "h ! a = (h0 ! a)\<lparr>skipped := skipped (h ! a)\<rparr>" using assms by (simp add: marked_def)
  show "FirstChild (h ! a) = FirstChild (h0 ! a)" by (subst e) simp
  show "NextSibling (h ! a) = NextSibling (h0 ! a)" by (subst e) simp
  show "Parent (h ! a) = Parent (h0 ! a)" by (subst e) simp
  show "same_content (h ! a) (h0 ! a)" unfolding same_content_def by (subst (1 2 3 4 5) e) simp
  show "contentType (h ! a) = contentType (h0 ! a)" by (subst e) simp
  show "Type (h ! a) = Type (h0 ! a)" by (subst e) simp
  show "Data (h ! a) = Data (h0 ! a)" by (subst e) simp
qed

lemma marked_tree:
  assumes "marked h0 h" "is_tree h0 t"
  shows "is_tree h t"
proof -
  have b: "\<forall>a \<in> set (addrs t). a < length h0" using assms(2) by (simp add: is_tree_def)
  have "set (concat (map addrs (kids t))) \<subseteq> set (addrs t)" by (cases t) auto
  with b have "shaped h t = shaped h0 t"
    using marked_field(1,2,3) [OF assms(1)] by (intro shaped_frame) auto
  with assms b show ?thesis by (simp add: is_tree_def marked_def)
qed

lemma marked_holds:
  assumes "marked h0 h" "is_tree h0 t" "holds lib h0 lvl t x"
  shows "holds lib h lvl t x"
proof -
  have "\<forall>a \<in> set (addrs t). same_content (h ! a) (h0 ! a)"
    using assms(2) marked_field(4) [OF assms(1)] by (simp add: is_tree_def)
  then have "holds lib h lvl t x = holds lib h0 lvl t x" by (rule holds_frame)
  with assms(3) show ?thesis by simp
qed

text \<open>The tag \<^verbatim>\<open>parseValue\<close> gives the node that holds the value.\<close>

definition tag_of :: "'b golib \<Rightarrow> gvalue \<Rightarrow> contentType" where
  "tag_of lib x = (case leaf lib x of Some (ct, s, v) \<Rightarrow> ct | None \<Rightarrow> container_tag x)"

lemma holds_tag: "holds lib h lvl (AT a ts) x \<Longrightarrow> contentType (h ! a) = tag_of lib x"
  by (cases "leaf lib x") (auto simp: holds_leaf holds_container tag_of_def)

lemma tag_of_array: "tag_of lib x = arrayType \<Longrightarrow> \<exists>xs. x = VSlice xs"
  by (cases x) (auto simp: tag_of_def)

lemma tag_of_object: "tag_of lib x = objectType \<Longrightarrow> \<exists>m. x = VMap m"
  by (cases x) (auto simp: tag_of_def)

lemma tree_nodes:
  "is_tree h t \<Longrightarrow> holds lib h lvl t x \<Longrightarrow> projectable x \<Longrightarrow> a \<in> set (addrs t) \<Longrightarrow>
   Type (h ! at_addr t) \<noteq> TextNode \<Longrightarrow>
   (\<exists>ts y l. is_tree h (AT a ts) \<and> holds lib h l (AT a ts) y \<and> projectable y \<and>
      Type (h ! a) \<noteq> TextNode) \<or>
   (contentType (h ! a) = [] \<and> FirstChild (h ! a) = None)"
proof (induction x arbitrary: t lvl rule: measure_induct_rule [where f = size])
  case (less x)
  obtain r ts where t: "t = AT r ts" by (cases t)
  show ?case
  proof (cases "a = r")
    case True
    with less.prems t show ?thesis by auto
  next
    case False
    with less.prems(4) t obtain u where u: "u \<in> set ts" "a \<in> set (addrs u)" by auto
    have tu: "is_tree h u" using less.prems(1) t u(1) is_tree_child by blast
    show ?thesis
    proof (cases "leaf lib x")
      case (Some q)
      obtain ct s v where q: "q = (ct, s, v)" by (cases q)
      from less.prems(2) Some q t obtain c where c: "ts = [AT c []]" "contentType (h ! c) = []"
        by (auto simp: holds_leaf)
      with u have ac: "a = c" by simp
      have "shaped h (AT c [])" using tu u(1) c(1) by (simp add: is_tree_def)
      then have "FirstChild (h ! c) = None" by simp
      with ac c(2) show ?thesis by simp
    next
      case None
      from less.prems(2) None t have ok: "list_all2 (child_ok lib h lvl) ts (items x)"
        by (simp add: holds_container)
      from u(1) obtain i where i: "i < length ts" "ts ! i = u" by (auto simp: in_set_conv_nth)
      have co: "child_ok lib h lvl u (items x ! i)"
        using ok i by (auto simp: list_all2_conv_all_nth)
      have it: "items x ! i \<in> set (items x)"
        using i(1) list_all2_lengthD [OF ok] by simp
      then have "size (snd (items x ! i)) < size x" using size_items [of "snd (items x ! i)" x] by simp
      moreover have "holds lib h (lvl + 1) u (snd (items x ! i))" using co by (simp add: child_ok_def)
      moreover have "projectable (snd (items x ! i))" using less.prems(3) it by (rule projectable_items)
      moreover have "Type (h ! at_addr u) \<noteq> TextNode" using co by (simp add: child_ok_def)
      ultimately show ?thesis using less.IH tu u(2) by blast
    qed
  qed
qed

lemma parsed_nodes:
  assumes "Unmarshal lib b = Inr v" "projectable v" "parse lib b = Inr (h0, doc)" "marked h0 h"
    and "n < length h"
  shows "(\<exists>ts y l. is_tree h (AT n ts) \<and> holds lib h l (AT n ts) y \<and> projectable y \<and>
            Type (h ! n) \<noteq> TextNode) \<or>
         (contentType (h ! n) = [] \<and> FirstChild (h ! n) = None)"
proof -
  from parse_tree [OF assms(1)] assms(3)
  obtain ts where tr: "is_tree h0 (AT 0 ts)" and ho: "holds lib h0 1 (AT 0 ts) v"
    and ty: "Type (h0 ! 0) = DocumentNode" and ad: "addrs (AT 0 ts) = [0..<length h0]"
    by auto
  have len: "length h = length h0" using assms(4) by (simp add: marked_def)
  have "0 < length h0" using assms(5) len by (cases h0) simp_all
  then have "Type (h ! 0) = DocumentNode" using marked_field(6) [OF assms(4)] ty by simp
  then have "Type (h ! at_addr (AT 0 ts)) \<noteq> TextNode" by simp
  moreover have "n \<in> set (addrs (AT 0 ts))" unfolding ad using assms(5) len by simp
  ultimately show ?thesis
    using tree_nodes [OF marked_tree [OF assms(4) tr] marked_holds [OF assms(4) tr ho] assms(2)]
    by blast
qed


lemma node_children:
  assumes "is_tree h (AT n ts)" "holds lib h l (AT n ts) y" "projectable y" "leaf lib y = None"
  shows "ChildNodes h n = Some (map at_addr ts) \<and> length ts = length (items y) \<and>
         (\<forall>i < length ts.
            Data (h ! at_addr (ts ! i)) = fst (items y ! i) \<and>
            contentType (h ! at_addr (ts ! i)) = tag_of lib (snd (items y ! i)) \<and>
            holds lib h (l + 1) (ts ! i) (snd (items y ! i)) \<and>
            projectable (snd (items y ! i)) \<and>
            JSON h (at_addr (ts ! i)) sk = Some (Inr (project sk h (ts ! i) (snd (items y ! i)))))"
proof (intro conjI allI impI)
  show "ChildNodes h n = Some (map at_addr ts)" using assms(1) by (rule ChildNodes_tree)
  from assms(2,4) have ok: "list_all2 (child_ok lib h l) ts (items y)"
    by (simp add: holds_container)
  then show len: "length ts = length (items y)" by (rule list_all2_lengthD)
  fix i assume i: "i < length ts"
  let ?u = "ts ! i" and ?it = "items y ! i"
  have co: "child_ok lib h l ?u ?it" using ok i by (auto simp: list_all2_conv_all_nth)
  have it: "?it \<in> set (items y)" using i len by simp
  have tu: "is_tree h ?u" using assms(1) i is_tree_child by (metis nth_mem)
  have ho: "holds lib h (l + 1) ?u (snd ?it)" using co by (simp add: child_ok_def)
  have pr: "projectable (snd ?it)" using assms(3) it by (rule projectable_items)
  have ty: "Type (h ! at_addr ?u) \<noteq> TextNode" using co by (simp add: child_ok_def)
  show "Data (h ! at_addr ?u) = fst ?it" using co by (simp add: child_ok_def)
  show "contentType (h ! at_addr ?u) = tag_of lib (snd ?it)"
    using ho holds_tag [of lib h "l + 1" "at_addr ?u" "kids ?u" "snd ?it"] by (cases ?u) simp
  show "holds lib h (l + 1) ?u (snd ?it)" by (rule ho)
  show "projectable (snd ?it)" by (rule pr)
  show "JSON h (at_addr ?u) sk = Some (Inr (project sk h ?u (snd ?it)))"
    unfolding JSON_def using tu ho pr ty is_tree_depth [OF tu] by (rule JSON_d_project)
qed

lemma canon_items:
  assumes "projectable y" "leaf lib y = None"
  shows "(\<exists>xs. y = VSlice xs \<and> canon y = VSlice (map (\<lambda>it. canon (snd it)) (items y))) \<or>
         (\<exists>m. y = VMap m \<and> canon y = VMap (map (\<lambda>it. (fst it, canon (snd it))) (items y)))"
proof (cases y)
  case (VSlice xs)
  then show ?thesis by (simp add: comp_def)
next
  case (VMap m)
  with assms(1) have "distinct (map fst m)" by simp
  from canon_map_sorted [OF this] VMap show ?thesis by simp
qed (use assms(2) in auto)


section \<open>The order of children\<close>

lemma node_order:
  assumes tr: "is_tree h (AT n ts)" and ho: "holds lib h l (AT n ts) y" and pr: "projectable y"
    and ty: "Type (h ! n) \<noteq> TextNode"
  shows "ChildNodes h n = Some (map at_addr ts) \<and>
     (contentType (h ! n) = objectType \<longrightarrow>
        (\<exists>m. JSON h n False = Some (Inr (VMap m)) \<and> sorted_wrt (<) (map fst m) \<and>
           map (\<lambda>c. (Data (h ! c), JSON h c False)) (map at_addr ts) =
             map (\<lambda>p. (fst p, Some (Inr (snd p)))) m)) \<and>
     (contentType (h ! n) = arrayType \<longrightarrow>
        (\<exists>ys. JSON h n False = Some (Inr (VSlice ys)) \<and>
           map (\<lambda>c. JSON h c False) (map at_addr ts) = map (\<lambda>y. Some (Inr y)) ys))"
proof -
  have cn: "ChildNodes h n = Some (map at_addr ts)" using tr by (rule ChildNodes_tree)
  have "JSON_d (length h) h (at_addr (AT n ts)) False = Some (Inr (project False h (AT n ts) y))"
    using tr ho pr _ is_tree_depth [OF tr] by (rule JSON_d_project) (simp add: ty)
  then have js: "JSON h n False = Some (Inr (canon y))"
    using project_False_canon [OF ho pr] by (simp add: JSON_def)
  have tg: "contentType (h ! n) = tag_of lib y" using ho by (rule holds_tag)
  have kids: "leaf lib y = None \<Longrightarrow> length ts = length (items y) \<and>
      (\<forall>i < length ts. Data (h ! at_addr (ts ! i)) = fst (items y ! i) \<and>
         JSON h (at_addr (ts ! i)) False = Some (Inr (canon (snd (items y ! i)))))"
  proof -
    assume lf: "leaf lib y = None"
    note nc = node_children [OF tr ho pr lf, of False]
    show "length ts = length (items y) \<and>
      (\<forall>i < length ts. Data (h ! at_addr (ts ! i)) = fst (items y ! i) \<and>
         JSON h (at_addr (ts ! i)) False = Some (Inr (canon (snd (items y ! i)))))"
    proof (intro conjI allI impI)
      show "length ts = length (items y)" using nc by simp
      fix i assume i: "i < length ts"
      show "Data (h ! at_addr (ts ! i)) = fst (items y ! i)" using nc i by simp
      have "holds lib h (l + 1) (ts ! i) (snd (items y ! i))" "projectable (snd (items y ! i))"
        using nc i by simp_all
      then have "project False h (ts ! i) (snd (items y ! i)) = canon (snd (items y ! i))"
        by (rule project_False_canon)
      then show "JSON h (at_addr (ts ! i)) False = Some (Inr (canon (snd (items y ! i))))"
        using nc i by simp
    qed
  qed
  have obj: "contentType (h ! n) = objectType \<longrightarrow>
        (\<exists>m. JSON h n False = Some (Inr (VMap m)) \<and> sorted_wrt (<) (map fst m) \<and>
           map (\<lambda>c. (Data (h ! c), JSON h c False)) (map at_addr ts) =
             map (\<lambda>p. (fst p, Some (Inr (snd p)))) m)"
  proof
    assume "contentType (h ! n) = objectType"
    with tg obtain m where m: "y = VMap m" using tag_of_object [of lib y] by auto
    then have lf: "leaf lib y = None" by simp
    have di: "distinct (map fst m)" using pr m by simp
    let ?m' = "map (\<lambda>it. (fst it, canon (snd it))) (items y)"
    have c: "canon y = VMap ?m'" using canon_items [OF pr lf] m by auto
    have "map fst ?m' = sort (map fst m)" using m by (simp add: comp_def)
    then have s: "sorted_wrt (<) (map fst ?m')" using di by (simp add: strict_sorted_iff)
    have "map (\<lambda>c. (Data (h ! c), JSON h c False)) (map at_addr ts) =
            map (\<lambda>p. (fst p, Some (Inr (snd p)))) ?m'"
      using kids [OF lf] by (intro nth_equalityI) simp_all
    with js c s show "\<exists>m. JSON h n False = Some (Inr (VMap m)) \<and> sorted_wrt (<) (map fst m) \<and>
           map (\<lambda>c. (Data (h ! c), JSON h c False)) (map at_addr ts) =
             map (\<lambda>p. (fst p, Some (Inr (snd p)))) m"
      by auto
  qed
  have arr: "contentType (h ! n) = arrayType \<longrightarrow>
        (\<exists>ys. JSON h n False = Some (Inr (VSlice ys)) \<and>
           map (\<lambda>c. JSON h c False) (map at_addr ts) = map (\<lambda>y. Some (Inr y)) ys)"
  proof
    assume "contentType (h ! n) = arrayType"
    with tg obtain xs where xs: "y = VSlice xs" using tag_of_array [of lib y] by auto
    then have lf: "leaf lib y = None" by simp
    let ?ys = "map (\<lambda>it. canon (snd it)) (items y)"
    have c: "canon y = VSlice ?ys" using canon_items [OF pr lf] xs by auto
    have "map (\<lambda>c. JSON h c False) (map at_addr ts) = map (\<lambda>y. Some (Inr y)) ?ys"
      using kids [OF lf] by (intro nth_equalityI) simp_all
    with js c show "\<exists>ys. JSON h n False = Some (Inr (VSlice ys)) \<and>
           map (\<lambda>c. JSON h c False) (map at_addr ts) = map (\<lambda>y. Some (Inr y)) ys"
      by auto
  qed
  from cn obj arr show ?thesis by blast
qed

text \<open>
  C2 (as amended). In the tree of a parsed document the children of every object-tagged
  node are in the ascending byte-wise order of their keys (the code sorts the keys of
  the decoded map; the written order is lost in the decoder), and the children of every
  array-tagged node are in the order of the items: the values of the children, in
  sibling order, are the entries of the node's value, whose keys are strictly ascending
  for an object, and the value of the document is the decoded value with every map in
  key order.
\<close>

theorem children_order:
  assumes "Unmarshal lib b = Inr v" "json_decoded v" "parse lib b = Inr (h, doc)" "n < length h"
  shows "JSON h doc False = Some (Inr (canon v)) \<and>
     (\<exists>cs. ChildNodes h n = Some cs \<and>
       (contentType (h ! n) = objectType \<longrightarrow>
          (\<exists>m. JSON h n False = Some (Inr (VMap m)) \<and> sorted_wrt (<) (map fst m) \<and>
             map (\<lambda>c. (Data (h ! c), JSON h c False)) cs =
               map (\<lambda>p. (fst p, Some (Inr (snd p)))) m)) \<and>
       (contentType (h ! n) = arrayType \<longrightarrow>
          (\<exists>ys. JSON h n False = Some (Inr (VSlice ys)) \<and>
             map (\<lambda>c. JSON h c False) cs = map (\<lambda>y. Some (Inr y)) ys)))"
proof
  have pv: "projectable v" using assms(2) by (rule json_decoded_projectable)
  from parse_JSON [OF assms(1) pv] assms(3)
  show "JSON h doc False = Some (Inr (canon v))" by auto
  from parsed_nodes [OF assms(1) pv assms(3) marked_refl assms(4)]
  show "\<exists>cs. ChildNodes h n = Some cs \<and>
       (contentType (h ! n) = objectType \<longrightarrow>
          (\<exists>m. JSON h n False = Some (Inr (VMap m)) \<and> sorted_wrt (<) (map fst m) \<and>
             map (\<lambda>c. (Data (h ! c), JSON h c False)) cs =
               map (\<lambda>p. (fst p, Some (Inr (snd p)))) m)) \<and>
       (contentType (h ! n) = arrayType \<longrightarrow>
          (\<exists>ys. JSON h n False = Some (Inr (VSlice ys)) \<and>
             map (\<lambda>c. JSON h c False) cs = map (\<lambda>y. Some (Inr y)) ys))"
  proof
    assume "\<exists>ts y l. is_tree h (AT n ts) \<and> holds lib h l (AT n ts) y \<and> projectable y \<and>
            Type (h ! n) \<noteq> TextNode"
    then obtain ts y l where "is_tree h (AT n ts)" "holds lib h l (AT n ts) y" "projectable y"
      "Type (h ! n) \<noteq> TextNode" by blast
    from node_order [OF this] show ?thesis by blast
  next
    assume a: "contentType (h ! n) = [] \<and> FirstChild (h ! n) = None"
    then have "ChildNodes h n = Some []" by (simp add: ChildNodes_def)
    with a show ?thesis by simp
  qed
qed


theorem children_order_witness:
  "Unmarshal (lib_of john_value small_float) [] = Inr john_value \<and> json_decoded john_value \<and>
   parse (lib_of john_value small_float) [] = Inr (john, 0) \<and> 0 < length john \<and>
   JSON john 0 False = Some (Inr (canon john_value)) \<and>
   (\<exists>cs. ChildNodes john 0 = Some cs \<and>
       (contentType (john ! 0) = objectType \<longrightarrow>
          (\<exists>m. JSON john 0 False = Some (Inr (VMap m)) \<and> sorted_wrt (<) (map fst m) \<and>
             map (\<lambda>c. (Data (john ! c), JSON john c False)) cs =
               map (\<lambda>p. (fst p, Some (Inr (snd p)))) m)) \<and>
       (contentType (john ! 0) = arrayType \<longrightarrow>
          (\<exists>ys. JSON john 0 False = Some (Inr (VSlice ys)) \<and>
             map (\<lambda>c. JSON john c False) cs = map (\<lambda>y. Some (Inr y)) ys)))"
proof -
  have a: "Unmarshal (lib_of john_value small_float) [] = Inr john_value" by (simp add: lib_of_def)
  have b: "json_decoded john_value" by code_simp
  have c: "parse (lib_of john_value small_float) [] = Inr (john, 0)" by code_simp
  have d: "0 < length john" by code_simp
  from children_order [OF a b c d] a b c d show ?thesis by blast
qed

text \<open>
  The claim as stated fails: the document \<^verbatim>\<open>{"name":"John","id":1}\<close> is written with
  \<^verbatim>\<open>name\<close> before \<^verbatim>\<open>id\<close>, and the children of its object-tagged document node are
  \<^verbatim>\<open>id\<close>, then \<^verbatim>\<open>name\<close>.
\<close>

theorem children_not_in_written_order:
  "parse (lib_of john_value small_float) [] = Inr (john, 0) \<and>
   john_value = VMap [(''name'', VString ''John''), (''id'', VFloat64 f64_1)] \<and>
   contentType (john ! 0) = objectType \<and> ChildNodes john 0 = Some [1, 3] \<and>
   map (\<lambda>c. Data (john ! c)) [1, 3] = [''id'', ''name'']"
  by code_simp

section \<open>The shape check of record arrays\<close>


text \<open>
  Two records with a string field and an \<^verbatim>\<open>int8\<close> field, and the tree \<^verbatim>\<open>ParseFromMaps\<close>
  builds for them.
\<close>

definition people_records :: "(string \<times> gvalue) list list" where
  "people_records = [[(''name'', VString ''John''), (''age'', VInt8 31)],
                     [(''name'', VString ''Ann''), (''age'', VInt8 25)]]"

definition people :: heap where
  "people = (case ParseFromMaps (lib_of VNil small_float) people_records of
               Inr r \<Rightarrow> fst r | Inl err \<Rightarrow> [])"

text \<open>A record with a \<^verbatim>\<open>float32\<close> field, and its tree.\<close>

definition sized :: heap where
  "sized = (case ParseFromMaps (lib_of VNil small_float) [[(''size'', VFloat32 0)]] of
              Inr r \<Rightarrow> fst r | Inl err \<Rightarrow> [])"






text \<open>
  The records succeed with their \<^verbatim>\<open>int8\<close> and string fields, with and without the
  exclusion of the first.
\<close>

lemma Maps_people:
  "ChildNodes (SetSkipped people 1 True) 0 = Some [1, 6] \<and>
   Maps (SetSkipped people 1 True) 0 True =
     Some (Inr [[(''age'', VInt8 25), (''name'', VString ''Ann'')]]) \<and>
   Maps people 0 False =
     Some (Inr [[(''age'', VInt8 31), (''name'', VString ''John'')],
                [(''age'', VInt8 25), (''name'', VString ''Ann'')]])"
  by code_simp

text \<open>
  A \<^verbatim>\<open>float32\<close> field is outside the theorem, and there the code has a defect of its own:
  \<^verbatim>\<open>parseValue\<close> stores the field converted to \<^verbatim>\<open>float64\<close> under the tag \<^verbatim>\<open>float32\<close>, and
  \<^verbatim>\<open>JSON\<close> asserts \<^verbatim>\<open>float32\<close> on it. \<^verbatim>\<open>Maps\<close> then panics on an array-tagged node whose
  only child is object-tagged.
\<close>

lemma Maps_float32_panics:
  "ParseFromMaps (lib_of VNil small_float) [[(''size'', VFloat32 0)]] = Inr (sized, 0) \<and>
   contentType (sized ! 0) = arrayType \<and> ChildNodes sized 0 = Some [1] \<and>
   contentType (sized ! 1) = objectType \<and> ChildNodes sized 1 = Some [2] \<and>
   contentType (sized ! 2) = float32Type \<and> InnerData sized 2 = Some (VFloat64 0) \<and>
   Maps sized 0 False = Some (Inl TypeAssertion)"
  by code_simp

section \<open>Excluding a node\<close>

text \<open>
  The node reached from \<open>r\<close> by a path of indices, each counted among the children that
  are not excluded: the positions that \<^verbatim>\<open>JSON(true)\<close> gives the values of those children.
\<close>

fun retained_path :: "heap \<Rightarrow> addr \<Rightarrow> nat list \<Rightarrow> addr option" where
  "retained_path h r [] = Some r"
| "retained_path h r (i # p) =
     (case ChildNodes h r of None \<Rightarrow> None
      | Some cs \<Rightarrow>
          (let rs = filter (\<lambda>c. \<not> skipped (h ! c)) cs
           in if i < length rs then retained_path h (rs ! i) p else None))"



















text \<open>
  On the asset records as built, excluding \<^verbatim>\<open>layers\<close> of the first record removes that
  entry alone.
\<close>

lemma SetSkipped_omits_values:
  "retained_path assets 0 [0, 2] = Some 6 \<and> Data (assets ! 6) = ''layers'' \<and>
   JSON assets 0 True = Some (Inr (VSlice
     [VMap [(''asset_id'', VFloat64 f64_1), (''id'', VFloat64 f64_1),
            (''layers'', VSlice [VMap [(''asset_id'', VFloat64 f64_11)]])],
      VMap [(''asset_id'', VFloat64 f64_2), (''id'', VFloat64 f64_2)]])) \<and>
   JSON (SetSkipped assets 6 True) 0 True = Some (Inr (VSlice
     [VMap [(''asset_id'', VFloat64 f64_1), (''id'', VFloat64 f64_1)],
      VMap [(''asset_id'', VFloat64 f64_2), (''id'', VFloat64 f64_2)]])) \<and>
   JSON (SetSkipped assets 6 True) 0 False = JSON assets 0 True"
  by code_simp

end
